theory Spec2Isabelle
  imports Complex_Main
begin

section \<open>JavaScript strings\<close>

text \<open>
  A JavaScript string is a sequence of UTF-16 code units; a code unit is modelled as a
  natural number. \<open>js\<close> turns an ASCII literal of the source into its code units.
\<close>

type_synonym jsstring = "nat list"

definition js :: "string \<Rightarrow> jsstring" where
  "js cs = map of_char cs"

text \<open>
  \<open>String.prototype.includes\<close>: does the pattern occur in the string as a contiguous
  run of code units.
\<close>

fun startsWith :: "jsstring \<Rightarrow> jsstring \<Rightarrow> bool" where
  "startsWith s [] = True"
| "startsWith [] (p # ps) = False"
| "startsWith (x # xs) (p # ps) = (x = p \<and> startsWith xs ps)"

fun includes_str :: "jsstring \<Rightarrow> jsstring \<Rightarrow> bool" where
  "includes_str [] p = (p = [])"
| "includes_str (x # xs) p = (startsWith (x # xs) p \<or> includes_str xs p)"

text \<open>
  \<open>String.prototype.toLowerCase\<close>. On a string of Basic Latin code units (below 128)
  it turns the letters \<open>A\<close> to \<open>Z\<close> (65 to 90) into \<open>a\<close> to \<open>z\<close> and leaves the
  rest. On any other string the result comes from the case tables of Unicode, which belong
  to the JavaScript engine and not to this repository: there the function is the
  parameter \<open>unicodeLower\<close>.
\<close>

definition lowerUnit :: "nat \<Rightarrow> nat" where
  "lowerUnit c = (if 65 \<le> c \<and> c \<le> 90 then c + 32 else c)"

definition toLowerCase :: "(jsstring \<Rightarrow> jsstring) \<Rightarrow> jsstring \<Rightarrow> jsstring" where
  "toLowerCase unicodeLower s =
     (if list_all (\<lambda>c. c < 128) s then map lowerUnit s else unicodeLower s)"

text \<open>
  White space and line terminators of ECMAScript: the code units that
  \<open>String.prototype.trim\<close> strips and that \<open>\s\<close> matches in a regular expression.
\<close>

definition isWhiteSpace :: "nat \<Rightarrow> bool" where
  "isWhiteSpace c \<longleftrightarrow>
     (9 \<le> c \<and> c \<le> 13) \<or> c = 32 \<or> c = 160 \<or> c = 5760 \<or> (8192 \<le> c \<and> c \<le> 8202) \<or>
     c = 8232 \<or> c = 8233 \<or> c = 8239 \<or> c = 8287 \<or> c = 12288 \<or> c = 65279"

definition trim :: "jsstring \<Rightarrow> jsstring" where
  "trim s = rev (dropWhile isWhiteSpace (rev (dropWhile isWhiteSpace s)))"

text \<open>A number inside a template literal: its decimal digits.\<close>

fun showNat :: "nat \<Rightarrow> jsstring" where
  "showNat n = (if n < 10 then [48 + n] else showNat (n div 10) @ [48 + n mod 10])"

declare showNat.simps [simp del]

text \<open>
  A thrown value: the class of the error object and its \<open>message\<close>. \<open>fetch\<close> rejects
  with a \<open>TypeError\<close> when the network fails, \<open>response.json()\<close> rejects with a
  \<open>SyntaxError\<close> on a malformed body, and \<open>new Error(...)\<close> makes a plain \<open>Error\<close>.
\<close>

datatype error_class = ErrorClass | TypeErrorClass | SyntaxErrorClass

datatype js_error = JsError error_class jsstring


fun error_class_of :: "js_error \<Rightarrow> error_class" where
  "error_class_of (JsError c m) = c"

section \<open>Admin dashboard: knowledge table, pagination and search\<close>

text \<open>
  A knowledge item as the server returns it. \<open>item_keywords\<close> and \<open>usage_count\<close> may be
  missing (the source tests them before use), hence the options.
\<close>

record knowledge_item =
  item_id :: int
  item_module :: jsstring
  question :: jsstring
  answer :: jsstring
  item_keywords :: "jsstring list option"
  usage_count :: "int option"

text \<open>
  The value of the variable \<open>knowledgeData\<close>: an array of knowledge items, or, after a
  load whose body was a JSON value that cannot be spread (an object such as the body of an
  error answer, a number, a boolean or \<open>null\<close>), that value.
\<close>

datatype knowledge_value = ItemArray "knowledge_item list" | NotIterable

text \<open>What \<open>renderKnowledgeTable\<close> writes into the table body.\<close>

datatype table_body = EmptyState | Rows "knowledge_item list"

text \<open>A button written by \<open>updateKnowledgePagination\<close>.\<close>

record page_btn =
  btn_label :: jsstring
  btn_disabled :: bool
  btn_active :: bool
  btn_target :: int

text \<open>
  The module-level variables of \<open>admin_dashboard.js\<close> together with the parts of the
  document the knowledge tab reads (the two filter inputs) and writes (table body and
  pagination bar).
\<close>

record admin_state =
  currentKnowledgePage :: int
  knowledgeData :: knowledge_value
  filteredKnowledgeData :: "knowledge_item list"
  searchKnowledgeValue :: jsstring
  moduleFilterValue :: jsstring
  knowledgeTableBody :: table_body
  knowledgePagination :: "page_btn list"

definition itemsPerPage :: int where
  "itemsPerPage = 10"

text \<open>
  \<open>Array.prototype.slice(start, end)\<close> on integer arguments: a negative index counts
  from the end of the array, and both indices are clamped to the array.
\<close>

definition slice :: "'a list \<Rightarrow> int \<Rightarrow> int \<Rightarrow> 'a list" where
  "slice xs start fin =
     (let len = int (length xs);
          k = (if start < 0 then max (len + start) 0 else min start len);
          final = (if fin < 0 then max (len + fin) 0 else min fin len)
      in take (nat (final - k)) (drop (nat k) xs))"

definition pageData :: "admin_state \<Rightarrow> knowledge_item list" where
  "pageData s =
     (let startIndex = (currentKnowledgePage s - 1) * itemsPerPage;
          endIndex = startIndex + itemsPerPage
      in slice (filteredKnowledgeData s) startIndex endIndex)"

definition renderKnowledgeTable :: "admin_state \<Rightarrow> admin_state" where
  "renderKnowledgeTable s =
     (if length (pageData s) = 0 then s\<lparr>knowledgeTableBody := EmptyState\<rparr>
      else s\<lparr>knowledgeTableBody := Rows (pageData s)\<rparr>)"

text \<open>
  \<open>Math.ceil(filteredKnowledgeData.length / itemsPerPage)\<close>. An array has fewer than
  \<open>2^32\<close> elements, so the quotient of the source's floating-point division has the same
  ceiling as the exact quotient taken here.
\<close>

definition totalPages :: "admin_state \<Rightarrow> int" where
  "totalPages s = \<lceil>(of_nat (length (filteredKnowledgeData s)) :: rat) / of_int itemsPerPage\<rceil>"

definition updateKnowledgePagination :: "admin_state \<Rightarrow> admin_state" where
  "updateKnowledgePagination s =
     (if totalPages s \<le> 1 then s\<lparr>knowledgePagination := []\<rparr>
      else s\<lparr>knowledgePagination :=
        [\<lparr>btn_label = js ''Previous'', btn_disabled = (currentKnowledgePage s = 1),
          btn_active = False, btn_target = currentKnowledgePage s - 1\<rparr>] @
        map (\<lambda>i. \<lparr>btn_label = showNat (nat i), btn_disabled = False,
                  btn_active = (i = currentKnowledgePage s), btn_target = i\<rparr>)
            [1 .. totalPages s] @
        [\<lparr>btn_label = js ''Next'', btn_disabled = (currentKnowledgePage s = totalPages s),
          btn_active = False, btn_target = currentKnowledgePage s + 1\<rparr>]\<rparr>)"

definition matchesSearch ::
    "(jsstring \<Rightarrow> jsstring) \<Rightarrow> jsstring \<Rightarrow> knowledge_item \<Rightarrow> bool" where
  "matchesSearch unicodeLower query item \<longleftrightarrow>
     query = [] \<or>
     includes_str (toLowerCase unicodeLower (question item)) query \<or>
     includes_str (toLowerCase unicodeLower (answer item)) query \<or>
     (case item_keywords item of
        None \<Rightarrow> False
      | Some kws \<Rightarrow> list_ex (\<lambda>kw. includes_str (toLowerCase unicodeLower kw) query) kws)"

definition matchesModule :: "jsstring \<Rightarrow> knowledge_item \<Rightarrow> bool" where
  "matchesModule moduleFilter item \<longleftrightarrow> moduleFilter = [] \<or> item_module item = moduleFilter"

text \<open>
  \<open>searchKnowledge\<close>. When \<open>knowledgeData\<close> is not an array, \<open>knowledgeData.filter(...)\<close>
  throws a \<open>TypeError\<close> (\<open>Inl\<close>) before anything is assigned.
\<close>

definition searchKnowledge ::
    "(jsstring \<Rightarrow> jsstring) \<Rightarrow> admin_state \<Rightarrow> error_class + admin_state" where
  "searchKnowledge unicodeLower s =
     (let query = toLowerCase unicodeLower (searchKnowledgeValue s);
          moduleFilter = moduleFilterValue s
      in case knowledgeData s of
           NotIterable \<Rightarrow> Inl TypeErrorClass
         | ItemArray items \<Rightarrow>
             (let s1 = s\<lparr>filteredKnowledgeData :=
                        filter (\<lambda>item. matchesSearch unicodeLower query item \<and>
                                       matchesModule moduleFilter item) items\<rparr>;
                  s2 = s1\<lparr>currentKnowledgePage := 1\<rparr>
              in Inr (updateKnowledgePagination (renderKnowledgeTable s2))))"

definition filterByModule ::
    "(jsstring \<Rightarrow> jsstring) \<Rightarrow> admin_state \<Rightarrow> error_class + admin_state" where
  "filterByModule unicodeLower s = searchKnowledge unicodeLower s"

definition changeKnowledgePage :: "int \<Rightarrow> admin_state \<Rightarrow> admin_state" where
  "changeKnowledgePage page s = renderKnowledgeTable (s\<lparr>currentKnowledgePage := page\<rparr>)"

text \<open>
  A click on the button at position \<open>i\<close> of the pagination bar runs its \<open>onclick\<close>,
  the call of \<open>changeKnowledgePage\<close> with the page written into it; a button with the
  \<open>disabled\<close> attribute does not react.
\<close>

definition clickPageButton :: "nat \<Rightarrow> admin_state \<Rightarrow> admin_state" where
  "clickPageButton i s =
     (if i < length (knowledgePagination s) \<and> \<not> btn_disabled (knowledgePagination s ! i)
      then changeKnowledgePage (btn_target (knowledgePagination s ! i)) s
      else s)"

text \<open>
  How a call of \<open>loadKnowledgeBase\<close> ends. The function never looks at the status of
  the response, so the body of an error answer is treated like any other body.
  \<open>LoadRejected\<close>: \<open>fetch\<close> or \<open>response.json()\<close> rejected, nothing was assigned;
  \<open>LoadedItems\<close>: the body was an array of knowledge items;
  \<open>LoadedNotIterable\<close>: the body was a JSON value that cannot be spread.
  Bodies of other shapes (a JSON string, an array holding something else than knowledge
  items) are answers that neither the list endpoint nor an error gives; they are not
  modelled.
\<close>

datatype load_outcome = LoadRejected | LoadedItems "knowledge_item list" | LoadedNotIterable

text \<open>
  \<open>loadKnowledgeBase\<close> after its two awaits. \<open>knowledgeData\<close> is assigned first; with
  a body that is not iterable the spread in the next line throws, and the \<open>catch\<close> block
  shows an alert and leaves the variables as they are by then.
\<close>

definition loadKnowledgeBase :: "load_outcome \<Rightarrow> admin_state \<Rightarrow> admin_state" where
  "loadKnowledgeBase outcome s =
     (case outcome of
        LoadRejected \<Rightarrow> s
      | LoadedNotIterable \<Rightarrow> s\<lparr>knowledgeData := NotIterable\<rparr>
      | LoadedItems items \<Rightarrow>
          updateKnowledgePagination (renderKnowledgeTable
            (s\<lparr>knowledgeData := ItemArray items, filteredKnowledgeData := items\<rparr>)))"

text \<open>
  What can happen to the knowledge tab: the user edits one of the two filter inputs, one
  of the functions above is called, a button of the pagination bar is clicked, or a load
  completes.
\<close>

datatype admin_event =
    SetSearchValue jsstring
  | SetModuleFilter jsstring
  | CallSearchKnowledge
  | CallFilterByModule
  | CallChangeKnowledgePage int
  | ClickPageButton nat
  | LoadKnowledgeBaseDone load_outcome

text \<open>
  One event. An error thrown by \<open>searchKnowledge\<close> ends the handler that called it, with
  the state as it was.
\<close>

fun admin_step :: "(jsstring \<Rightarrow> jsstring) \<Rightarrow> admin_event \<Rightarrow> admin_state \<Rightarrow> admin_state" where
  "admin_step unicodeLower (SetSearchValue v) s = s\<lparr>searchKnowledgeValue := v\<rparr>"
| "admin_step unicodeLower (SetModuleFilter v) s = s\<lparr>moduleFilterValue := v\<rparr>"
| "admin_step unicodeLower CallSearchKnowledge s =
     (case searchKnowledge unicodeLower s of Inl e \<Rightarrow> s | Inr s' \<Rightarrow> s')"
| "admin_step unicodeLower CallFilterByModule s =
     (case filterByModule unicodeLower s of Inl e \<Rightarrow> s | Inr s' \<Rightarrow> s')"
| "admin_step unicodeLower (CallChangeKnowledgePage p) s = changeKnowledgePage p s"
| "admin_step unicodeLower (ClickPageButton i) s = clickPageButton i s"
| "admin_step unicodeLower (LoadKnowledgeBaseDone outcome) s = loadKnowledgeBase outcome s"

text \<open>The script starts on page 1 with both collections empty.\<close>

definition admin_initial :: "admin_state \<Rightarrow> bool" where
  "admin_initial s \<longleftrightarrow>
     currentKnowledgePage s = 1 \<and> knowledgeData s = ItemArray [] \<and>
     filteredKnowledgeData s = []"

text \<open>
  The events that come from the page itself. \<open>changeKnowledgePage\<close> is called by the
  page only through the buttons that \<open>updateKnowledgePagination\<close> writes.
\<close>

fun from_page :: "admin_event \<Rightarrow> bool" where
  "from_page (CallChangeKnowledgePage p) = False"
| "from_page e = True"

fun admin_run ::
    "(jsstring \<Rightarrow> jsstring) \<Rightarrow> admin_event list \<Rightarrow> admin_state \<Rightarrow> admin_state" where
  "admin_run unicodeLower [] s = s"
| "admin_run unicodeLower (e # es) s = admin_run unicodeLower es (admin_step unicodeLower e s)"

text \<open>
  The specification's reading of "case-insensitive substring", with its demand that the
  folding be the same on the fields and on the query: the text folded to lower case
  occurs in the field folded to lower case.
\<close>

definition ci_substring :: "(jsstring \<Rightarrow> jsstring) \<Rightarrow> jsstring \<Rightarrow> jsstring \<Rightarrow> bool" where
  "ci_substring unicodeLower text field \<longleftrightarrow>
     (\<exists>pre post. toLowerCase unicodeLower field = pre @ toLowerCase unicodeLower text @ post)"

definition text_passes ::
    "(jsstring \<Rightarrow> jsstring) \<Rightarrow> jsstring \<Rightarrow> knowledge_item \<Rightarrow> bool" where
  "text_passes unicodeLower text item \<longleftrightarrow>
     text = [] \<or> ci_substring unicodeLower text (question item) \<or>
     ci_substring unicodeLower text (answer item) \<or>
     (\<exists>kws kw. item_keywords item = Some kws \<and> kw \<in> set kws \<and>
        ci_substring unicodeLower text kw)"

section \<open>Dashboard application: API client and statistics\<close>

text \<open>
  What the code looks at in a \<open>Response\<close>: the status, the \<open>content-type\<close> header
  (\<open>headers.get\<close> gives \<open>null\<close> when it is absent) and what \<open>json()\<close> settles to.
\<close>

record 'j response =
  status :: nat
  content_type :: "jsstring option"
  json_body :: "js_error + 'j"

text \<open>\<open>response.ok\<close> of the Fetch standard: the status is in the range 200 to 299.\<close>

definition ok :: "'j response \<Rightarrow> bool" where
  "ok r \<longleftrightarrow> 200 \<le> status r \<and> status r \<le> 299"

text \<open>
  What \<open>safeFetch\<close> does besides returning: it calls \<open>response.json()\<close> and it writes
  to the console.
\<close>

datatype effect = ReadJson | ConsoleError jsstring js_error

text \<open>
  \<open>safeFetch\<close>, given what \<open>fetch\<close> settles to. The result is the pair of the effects
  in order and the outcome: \<open>Inl\<close> is the error the function throws, \<open>Inr\<close> the value
  it returns. The \<open>catch\<close> block logs the error and throws the same error again.
\<close>

definition safeFetch :: "jsstring \<Rightarrow> js_error + 'j response \<Rightarrow> effect list \<times> (js_error + 'j)" where
  "safeFetch url fetched =
     (let rethrow = (\<lambda>before e.
            (before @ [ConsoleError (js ''Fetch error for '' @ url @ js '':'') e], Inl e));
          notJson = JsError ErrorClass (js ''Response is not JSON'')
      in case fetched of
           Inl e \<Rightarrow> rethrow [] e
         | Inr r \<Rightarrow>
             if \<not> ok r then
               rethrow [] (JsError ErrorClass (js ''HTTP error! status: '' @ showNat (status r)))
             else
               (case content_type r of
                  None \<Rightarrow> rethrow [] notJson
                | Some contentType \<Rightarrow>
                    if contentType = [] \<or> \<not> includes_str contentType (js ''application/json'')
                    then rethrow [] notJson
                    else (case json_body r of
                            Inl e \<Rightarrow> rethrow [ReadJson] e
                          | Inr v \<Rightarrow> ([ReadJson], Inr v))))"

text \<open>The fields \<open>loadStats\<close> reads from the body of \<open>/admin/stats\<close>; each may be missing.\<close>

record stats_data =
  knowledge_count :: "int option"
  training_count :: "int option"
  conversation_count :: "int option"













section \<open>Dashboard application: chat\<close>

record chat_message =
  msg_id :: nat
  msg_type :: jsstring
  sender :: jsstring
  msg_content :: "jsstring option"
  source :: "jsstring option"
  msg_module :: "jsstring option"
  detectedModule :: "jsstring option"
  confidence :: "rat option"

text \<open>The body of the answer to \<open>POST /chat\<close>; a field the server leaves out is \<open>None\<close>.\<close>

record chat_reply =
  reply_answer :: "jsstring option"
  reply_source :: "jsstring option"
  reply_module :: "jsstring option"
  reply_detected_module :: "jsstring option"
  reply_confidence :: "rat option"

record chat_payload =
  payload_question :: jsstring
  payload_module :: jsstring

text \<open>
  A call of \<open>sendMessage\<close> that is suspended: at \<open>await fetch(...)\<close> or at
  \<open>await response.json()\<close>.
\<close>

datatype suspended = AwaitFetch | AwaitJson

text \<open>
  The data of the application that the chat uses, and around it what the chat does to the
  outside: the requests sent to \<open>/chat\<close> in order, the suspended calls of \<open>sendMessage\<close>,
  and how often the conversation log was reloaded.
\<close>

record chat_state =
  userInput :: jsstring
  loading :: bool
  messages :: "chat_message list"
  selectedModule :: jsstring
  autoDetectModule :: bool
  requests :: "chat_payload list"
  inflight :: "suspended list"
  conversationReloads :: nat

text \<open>The values of \<open>data()\<close>, with nothing sent yet.\<close>

definition chat_initial :: chat_state where
  "chat_initial =
     \<lparr>userInput = [], loading = False, messages = [], selectedModule = js ''general'',
      autoDetectModule = True, requests = [], inflight = [], conversationReloads = 0\<rparr>"

text \<open>
  \<open>sendMessage\<close> from its call to its first \<open>await\<close>; \<open>now\<close> is what \<open>Date.now()\<close>
  returns.
\<close>

definition sendMessage :: "nat \<Rightarrow> chat_state \<Rightarrow> chat_state" where
  "sendMessage now s =
     (if trim (userInput s) = [] \<or> loading s then s
      else
        (let userMessage =
               \<lparr>msg_id = now, msg_type = js ''user'', sender = js ''You'',
                msg_content = Some (trim (userInput s)), source = None, msg_module = None,
                detectedModule = None, confidence = None\<rparr>;
             currentInput = userInput s;
             payload =
               \<lparr>payload_question = currentInput,
                payload_module = (if autoDetectModule s then js ''auto'' else selectedModule s)\<rparr>
         in s\<lparr>messages := messages s @ [userMessage], loading := True, userInput := [],
              requests := requests s @ [payload], inflight := inflight s @ [AwaitFetch]\<rparr>))"

text \<open>The \<open>catch\<close> block followed by the \<open>finally\<close> block, for the suspended call \<open>i\<close>.\<close>

definition removeAt :: "nat \<Rightarrow> 'a list \<Rightarrow> 'a list" where
  "removeAt i xs = take i xs @ drop (Suc i) xs"

definition sendFailed :: "nat \<Rightarrow> nat \<Rightarrow> chat_state \<Rightarrow> chat_state" where
  "sendFailed i now s =
     (let errorMessage =
            \<lparr>msg_id = now + 1, msg_type = js ''ai'', sender = js ''System'',
             msg_content = Some (js ''Sorry, I encountered an error. Please try again.''),
             source = None, msg_module = None, detectedModule = None, confidence = None\<rparr>
      in s\<lparr>messages := messages s @ [errorMessage], loading := False,
           inflight := removeAt i (inflight s)\<rparr>)"

text \<open>
  \<open>fetch\<close> settles for the suspended call \<open>i\<close>: a rejection runs \<open>catch\<close> and
  \<open>finally\<close>, a response leads to the second \<open>await\<close>. The status of the response is
  not looked at.
\<close>

definition fetchSettled :: "nat \<Rightarrow> js_error + unit \<Rightarrow> nat \<Rightarrow> chat_state \<Rightarrow> chat_state" where
  "fetchSettled i outcome now s =
     (if i < length (inflight s) \<and> inflight s ! i = AwaitFetch then
        (case outcome of
           Inl e \<Rightarrow> sendFailed i now s
         | Inr response \<Rightarrow> s\<lparr>inflight := (inflight s)[i := AwaitJson]\<rparr>)
      else s)"

text \<open>
  \<open>response.json()\<close> settles for the suspended call \<open>i\<close>. A body that is the JSON value
  \<open>null\<close> (\<open>Inr None\<close>) makes \<open>data.answer\<close> throw, which the \<open>catch\<close> block handles
  like a rejection.
\<close>

definition jsonSettled :: "nat \<Rightarrow> js_error + chat_reply option \<Rightarrow> nat \<Rightarrow> chat_state \<Rightarrow> chat_state" where
  "jsonSettled i outcome now s =
     (if i < length (inflight s) \<and> inflight s ! i = AwaitJson then
        (case outcome of
           Inl e \<Rightarrow> sendFailed i now s
         | Inr None \<Rightarrow> sendFailed i now s
         | Inr (Some data) \<Rightarrow>
             (let aiMessage =
                    \<lparr>msg_id = now + 1, msg_type = js ''ai'', sender = js ''AI Assistant'',
                     msg_content = reply_answer data, source = reply_source data,
                     msg_module = reply_module data,
                     detectedModule = reply_detected_module data,
                     confidence = reply_confidence data\<rparr>
              in s\<lparr>messages := messages s @ [aiMessage],
                   conversationReloads := conversationReloads s + 1, loading := False,
                   inflight := removeAt i (inflight s)\<rparr>))
      else s)"

datatype chat_event =
    TypeInput jsstring
  | SelectModule jsstring
  | SetAutoDetect bool
  | Send nat
  | FetchSettled nat "js_error + unit" nat
  | JsonSettled nat "js_error + chat_reply option" nat

fun chat_step :: "chat_event \<Rightarrow> chat_state \<Rightarrow> chat_state" where
  "chat_step (TypeInput v) s = s\<lparr>userInput := v\<rparr>"
| "chat_step (SelectModule m) s = s\<lparr>selectedModule := m\<rparr>"
| "chat_step (SetAutoDetect b) s = s\<lparr>autoDetectModule := b\<rparr>"
| "chat_step (Send now) s = sendMessage now s"
| "chat_step (FetchSettled i outcome now) s = fetchSettled i outcome now s"
| "chat_step (JsonSettled i outcome now) s = jsonSettled i outcome now s"

fun chat_run :: "chat_event list \<Rightarrow> chat_state \<Rightarrow> chat_state" where
  "chat_run [] s = s"
| "chat_run (e # es) s = chat_run es (chat_step e s)"

text \<open>The events that end a suspended call: they run its \<open>finally\<close> block.\<close>

fun ends_request :: "chat_event \<Rightarrow> bool" where
  "ends_request (FetchSettled i (Inl e) now) = True"
| "ends_request (JsonSettled i outcome now) = True"
| "ends_request e = False"

section \<open>Admin dashboard: keyword editor\<close>

text \<open>An element of the document, as far as the keyword editor sets it up.\<close>

record dom_element =
  className :: jsstring
  innerHTML :: jsstring

text \<open>
  The keyword part of the knowledge form: the text in the input \<open>keywordInput\<close> and the
  children of \<open>keywordsContainer\<close> in document order.
\<close>

record keyword_editor =
  keywordInputValue :: jsstring
  keywordsContainer :: "dom_element list"

text \<open>The element \<open>addKeywordToContainer\<close> creates for a keyword.\<close>

definition keywordElement :: "jsstring \<Rightarrow> dom_element" where
  "keywordElement keyword =
     \<lparr>className = js ''keyword-tag'',
      innerHTML = [10] @ js ''        '' @ keyword @ [10] @ js ''        '' @
        js ''<button type=\"button\" class=\"remove-keyword\" '' @
        js ''onclick=\"this.parentElement.remove()\">&times;</button>'' @ [10] @ js ''    ''\<rparr>"

definition addKeywordToContainer :: "jsstring \<Rightarrow> keyword_editor \<Rightarrow> keyword_editor" where
  "addKeywordToContainer keyword s =
     s\<lparr>keywordsContainer := keywordsContainer s @ [keywordElement keyword]\<rparr>"

text \<open>The \<open>keypress\<close> listener of the input; \<open>key\<close> is \<open>e.key\<close>.\<close>

definition keywordInput_keypress :: "jsstring \<Rightarrow> keyword_editor \<Rightarrow> keyword_editor" where
  "keywordInput_keypress key s =
     (if key = js ''Enter'' then
        (let keyword = trim (keywordInputValue s)
         in if keyword \<noteq> [] then (addKeywordToContainer keyword s)\<lparr>keywordInputValue := []\<rparr>
            else s)
      else s)"

text \<open>
  A click on the remove button of the child at position \<open>index\<close>:
  \<open>this.parentElement.remove()\<close> takes that child out of the container. There is no
  button to click beyond the last child.
\<close>

definition removeKeyword_click :: "nat \<Rightarrow> keyword_editor \<Rightarrow> keyword_editor" where
  "removeKeyword_click index s =
     (if index < length (keywordsContainer s)
      then s\<lparr>keywordsContainer := removeAt index (keywordsContainer s)\<rparr>
      else s)"

section \<open>Regular expressions of the formatter\<close>

text \<open>
  The part of ECMAScript regular expressions that \<open>formatMessage\<close> uses, without the
  \<open>u\<close> flag: matching is by code unit. A character class is a single code unit,
  \<open>\d\<close>, \<open>\s\<close>, or the dot, which leaves out the four line terminators unless the
  \<open>s\<close> flag is given.
\<close>

datatype cclass = Unit nat | Digit | Space | Dot | DotAll

fun in_class :: "cclass \<Rightarrow> nat \<Rightarrow> bool" where
  "in_class (Unit u) c = (c = u)"
| "in_class Digit c = (48 \<le> c \<and> c \<le> 57)"
| "in_class Space c = isWhiteSpace c"
| "in_class Dot c = (c \<noteq> 10 \<and> c \<noteq> 13 \<and> c \<noteq> 8232 \<and> c \<noteq> 8233)"
| "in_class DotAll c = True"

text \<open>
  \<open>Star\<close> is the greedy \<open>x*\<close> and \<open>Lazy\<close> the non-greedy \<open>x*?\<close> on a class,
  \<open>Group n\<close> the capturing group with number \<open>n\<close>, \<open>Ahead\<close> the lookahead \<open>(?=...)\<close>
  and \<open>Eos\<close> the assertion \<open>$\<close> (without the \<open>m\<close> flag: the end of the input).
\<close>

datatype regex =
    Eps
  | Chr cclass
  | Seq regex regex
  | Alt regex regex
  | Star cclass
  | Lazy cclass
  | Group nat regex
  | Ahead regex
  | Eos

primrec lit :: "jsstring \<Rightarrow> regex" where
  "lit [] = Eps"
| "lit (c # cs) = Seq (Chr (Unit c)) (lit cs)"

text \<open>
  The backtracking matcher. The first argument is what is still to be matched, in order:
  regular expressions, and for every group that has been entered the instruction to close
  it, which remembers the input at its start. The result is the input left after the match
  together with the captures, or \<open>None\<close> when there is no match from this position. The
  alternatives are tried in the order of ECMAScript: the left branch of \<open>|\<close> first,
  one more repetition first for \<open>*\<close>, and the continuation first for \<open>*?\<close>.
\<close>

datatype instr = Match regex | Close nat jsstring

type_synonym captures = "nat \<Rightarrow> jsstring option"

fun weight :: "instr \<Rightarrow> nat" where
  "weight (Match r) = 2 * size r + 1"
| "weight (Close n s) = 1"

function run :: "instr list \<Rightarrow> jsstring \<Rightarrow> captures \<Rightarrow> (jsstring \<times> captures) option" where
  "run [] s c = Some (s, c)"
| "run (Close n start # k) s c = run k s (c(n \<mapsto> take (length start - length s) start))"
| "run (Match Eps # k) s c = run k s c"
| "run (Match (Chr cl) # k) [] c = None"
| "run (Match (Chr cl) # k) (x # xs) c = (if in_class cl x then run k xs c else None)"
| "run (Match (Seq a b) # k) s c = run (Match a # Match b # k) s c"
| "run (Match (Alt a b) # k) s c =
     (case run (Match a # k) s c of Some r \<Rightarrow> Some r | None \<Rightarrow> run (Match b # k) s c)"
| "run (Match (Star cl) # k) [] c = run k [] c"
| "run (Match (Star cl) # k) (x # xs) c =
     (if in_class cl x then
        (case run (Match (Star cl) # k) xs c of
           Some r \<Rightarrow> Some r
         | None \<Rightarrow> run k (x # xs) c)
      else run k (x # xs) c)"
| "run (Match (Lazy cl) # k) [] c = run k [] c"
| "run (Match (Lazy cl) # k) (x # xs) c =
     (case run k (x # xs) c of
        Some r \<Rightarrow> Some r
      | None \<Rightarrow> if in_class cl x then run (Match (Lazy cl) # k) xs c else None)"
| "run (Match (Group n a) # k) s c = run (Match a # Close n s # k) s c"
| "run (Match (Ahead a) # k) s c =
     (case run [Match a] s c of Some r \<Rightarrow> run k s (snd r) | None \<Rightarrow> None)"
| "run (Match Eos # k) s c = (if s = [] then run k s c else None)"
  by pat_completeness auto
termination
  by (relation "measures [\<lambda>(k, s, c). length s, \<lambda>(k, s, c). sum_list (map weight k)]") auto

text \<open>A replacement string: literal text and references \<open>$n\<close> to captures.\<close>

datatype piece = Text jsstring | Ref nat

fun expand :: "captures \<Rightarrow> piece list \<Rightarrow> jsstring" where
  "expand c [] = []"
| "expand c (Text t # ps) = t @ expand c ps"
| "expand c (Ref n # ps) = (case c n of None \<Rightarrow> [] | Some v \<Rightarrow> v) @ expand c ps"

text \<open>
  \<open>String.prototype.replace\<close> with a regular expression that has the \<open>g\<close> flag: the
  matches are looked for from left to right, each search starting where the last match
  ended, or one code unit later when that match was empty. None of the expressions looks
  behind itself, so a match depends only on the input from its start.
\<close>

function replaceAll_re :: "regex \<Rightarrow> piece list \<Rightarrow> jsstring \<Rightarrow> jsstring" where
  "replaceAll_re re tpl [] =
     (case run [Match re] [] Map.empty of
        Some r \<Rightarrow> expand (snd r) tpl
      | None \<Rightarrow> [])"
| "replaceAll_re re tpl (x # xs) =
     (case run [Match re] (x # xs) Map.empty of
        Some r \<Rightarrow>
          if length (fst r) < length (x # xs)
          then expand (snd r) tpl @ replaceAll_re re tpl (fst r)
          else expand (snd r) tpl @ x # replaceAll_re re tpl xs
      | None \<Rightarrow> x # replaceAll_re re tpl xs)"
  by pat_completeness auto
termination
  by (relation "measure (\<lambda>(re, tpl, s). length s)") auto

text \<open>The same without the \<open>g\<close> flag: only the first match is replaced.\<close>

fun replaceFirst_re :: "regex \<Rightarrow> piece list \<Rightarrow> jsstring \<Rightarrow> jsstring" where
  "replaceFirst_re re tpl [] =
     (case run [Match re] [] Map.empty of
        Some r \<Rightarrow> expand (snd r) tpl @ fst r
      | None \<Rightarrow> [])"
| "replaceFirst_re re tpl (x # xs) =
     (case run [Match re] (x # xs) Map.empty of
        Some r \<Rightarrow> expand (snd r) tpl @ fst r
      | None \<Rightarrow> x # replaceFirst_re re tpl xs)"

section \<open>Dashboard application: message formatter\<close>

text \<open>The characters of the source outside ASCII, as UTF-16 code units.\<close>

definition emoji_target :: jsstring where "emoji_target = [55356, 57263]"
definition emoji_money :: jsstring where "emoji_money = [55357, 56496]"
definition emoji_people :: jsstring where "emoji_people = [55357, 56421]"
definition emoji_computer :: jsstring where "emoji_computer = [55357, 56741, 65039]"
definition emoji_bulb :: jsstring where "emoji_bulb = [55357, 56481]"
definition emoji_clock :: jsstring where "emoji_clock = [9200]"
definition bullet :: jsstring where "bullet = [8226]"
definition emoji_check :: jsstring where "emoji_check = [9989]"
definition emoji_pin :: jsstring where "emoji_pin = [55357, 56525]"

text \<open>The eight calls of \<open>replace\<close> in \<open>formatMessage\<close>, in the order of the source.\<close>

definition boldRule :: "jsstring \<Rightarrow> jsstring" where
  "boldRule =
     replaceAll_re (Seq (lit (js ''**'')) (Seq (Group 1 (Lazy Dot)) (lit (js ''**''))))
       [Text (js ''<strong>''), Ref 1, Text (js ''</strong>'')]"

definition breakRule :: "jsstring \<Rightarrow> jsstring" where
  "breakRule = replaceAll_re (Chr (Unit 10)) [Text (js ''<br>'')]"

definition headerRule :: "jsstring \<Rightarrow> jsstring" where
  "headerRule =
     replaceAll_re
       (Seq (Group 1 (Alt (lit emoji_target) (Alt (lit emoji_money) (Alt (lit emoji_people)
               (Alt (lit emoji_computer) (Alt (lit emoji_bulb) (lit emoji_clock)))))))
         (Seq (Star Space) (Seq (lit (js ''<strong>''))
           (Seq (Group 2 (Lazy Dot)) (lit (js ''</strong>''))))))
       [Text (js ''<div class=\"section-header\">''), Ref 1, Text (js '' <strong>''), Ref 2,
        Text (js ''</strong></div>'')]"

definition stepRegex :: regex where
  "stepRegex =
     Seq (Group 1 (Seq (Chr Digit) (Star Digit)))
       (Seq (Chr (Unit 46)) (Seq (Star Space)
         (Seq (Group 2 (Lazy Dot)) (Ahead (Alt (lit (js ''<br>'')) Eos)))))"

definition stepTemplate :: "piece list" where
  "stepTemplate =
     [Text (js ''<div class=\"step-item\"><strong>''), Ref 1, Text (js ''.</strong> ''), Ref 2,
      Text (js ''</div>'')]"

definition stepRule :: "jsstring \<Rightarrow> jsstring" where
  "stepRule = replaceAll_re stepRegex stepTemplate"

definition tipRule :: "jsstring \<Rightarrow> jsstring" where
  "tipRule =
     replaceAll_re
       (Seq (lit bullet) (Seq (Star Space)
         (Seq (Group 1 (Lazy Dot)) (Ahead (Alt (lit (js ''<br>'')) Eos)))))
       [Text (js ''<div class=\"tip-item\">''), Ref 1, Text (js ''</div>'')]"

definition tipsSectionRule :: "jsstring \<Rightarrow> jsstring" where
  "tipsSectionRule =
     replaceAll_re
       (Seq (lit (js ''**'' @ emoji_bulb @ js '' Pro Tips:**<br>''))
         (Seq (Group 1 (Lazy DotAll)) (Ahead (Alt (lit (js ''<br><br>'')) Eos))))
       [Text (js ''<div class=\"tips-section\"><strong>'' @ emoji_bulb @ js '' Pro Tips:</strong><br>''),
        Ref 1, Text (js ''</div>'')]"

definition importantSectionRule :: "jsstring \<Rightarrow> jsstring" where
  "importantSectionRule =
     replaceAll_re
       (Seq (lit (js ''**'' @ emoji_check @ js '' Important:**<br>''))
         (Seq (Group 1 (Lazy DotAll)) (Ahead (Alt (lit (js ''<br><br>'')) Eos))))
       [Text (js ''<div class=\"important-section\"><strong>'' @ emoji_check @
          js '' Important:</strong><br>''),
        Ref 1, Text (js ''</div>'')]"

definition footerRule :: "jsstring \<Rightarrow> jsstring" where
  "footerRule =
     replaceFirst_re (Seq (lit emoji_pin) (Seq (Group 1 (Lazy Dot)) Eos))
       [Text (js ''<div class=\"footer-note\">'' @ emoji_pin @ js '' ''), Ref 1,
        Text (js ''</div>'')]"

text \<open>
  \<open>formatMessage\<close>. The argument is \<open>None\<close> when the caller passes \<open>undefined\<close> or
  \<open>null\<close>; these and the empty string are what \<open>!content\<close> accepts among strings.
\<close>

definition formatMessage :: "jsstring option \<Rightarrow> jsstring" where
  "formatMessage content =
     (case content of
        None \<Rightarrow> []
      | Some text \<Rightarrow>
          if text = [] then []
          else footerRule (importantSectionRule (tipsSectionRule (tipRule (stepRule
                 (headerRule (breakRule (boldRule text))))))))"

text \<open>
  Two predicates on strings for stating where the step rule applies: \<open>digitDot s\<close> says
  that somewhere in \<open>s\<close> a digit is directly followed by a dot, and \<open>dotAfterDigits s\<close>
  that \<open>s\<close> begins with digits, possibly none, and then a dot.
\<close>

fun digitDot :: "jsstring \<Rightarrow> bool" where
  "digitDot (d # e # xs) = ((in_class Digit d \<and> e = 46) \<or> digitDot (e # xs))"
| "digitDot [d] = False"
| "digitDot [] = False"

fun dotAfterDigits :: "jsstring \<Rightarrow> bool" where
  "dotAfterDigits [] = False"
| "dotAfterDigits (x # xs) = (x = 46 \<or> (in_class Digit x \<and> dotAfterDigits xs))"

section \<open>Example inputs of the knowledge tab\<close>

text \<open>
  Every string of the examples is Basic Latin, so the function for the other strings is
  not consulted in them; this one stands in its place.
\<close>

definition latin_only :: "jsstring \<Rightarrow> jsstring" where
  "latin_only s = map lowerUnit s"

text \<open>Twenty-five items with the ids 1 to 25, shown on page 3.\<close>

definition numbered_item :: "int \<Rightarrow> knowledge_item" where
  "numbered_item n =
     \<lparr>item_id = n, item_module = js ''payroll'', question = js ''q'', answer = js ''a'',
      item_keywords = None, usage_count = None\<rparr>"

definition twenty_five :: "knowledge_item list" where
  "twenty_five = map numbered_item
     [1, 2, 3, 4, 5, 6, 7, 8, 9, 10, 11, 12, 13, 14, 15, 16, 17, 18, 19, 20, 21, 22, 23, 24, 25]"

definition twenty_five_page3 :: admin_state where
  "twenty_five_page3 =
     \<lparr>currentKnowledgePage = 3, knowledgeData = ItemArray twenty_five,
      filteredKnowledgeData = twenty_five,
      searchKnowledgeValue = [], moduleFilterValue = [],
      knowledgeTableBody = EmptyState, knowledgePagination = []\<rparr>"

definition payroll_item :: knowledge_item where
  "payroll_item =
     \<lparr>item_id = 1, item_module = js ''payroll'', question = js ''How do I run it?'',
      answer = js ''Use the wizard.'', item_keywords = Some [js ''Payroll''],
      usage_count = None\<rparr>"

definition leave_item :: knowledge_item where
  "leave_item =
     \<lparr>item_id = 2, item_module = js ''hr'', question = js ''How do I pay a bonus?'',
      answer = js ''Ask HR.'', item_keywords = Some [js ''leave''], usage_count = None\<rparr>"

definition two_items :: "jsstring \<Rightarrow> admin_state" where
  "two_items text =
     \<lparr>currentKnowledgePage = 2, knowledgeData = ItemArray [payroll_item, leave_item],
      filteredKnowledgeData = [payroll_item, leave_item],
      searchKnowledgeValue = text, moduleFilterValue = [],
      knowledgeTableBody = EmptyState, knowledgePagination = []\<rparr>"

definition fresh_page :: admin_state where
  "fresh_page =
     \<lparr>currentKnowledgePage = 1, knowledgeData = ItemArray [], filteredKnowledgeData = [],
      searchKnowledgeValue = [], moduleFilterValue = [],
      knowledgeTableBody = EmptyState, knowledgePagination = []\<rparr>"

section \<open>Example inputs of the keyword editor and the chat\<close>

definition one_tag :: keyword_editor where
  "one_tag = \<lparr>keywordInputValue = js '' payroll '', keywordsContainer = [keywordElement (js ''tax'')]\<rparr>"

definition blank_input :: chat_state where
  "blank_input = chat_initial\<lparr>userInput := js ''   ''\<rparr>"

definition hello_sent :: chat_state where
  "hello_sent = chat_run [TypeInput (js ''hello''), Send 1000] chat_initial"

definition sample_reply :: chat_reply where
  "sample_reply = \<lparr>reply_answer = Some (js ''Hi''), reply_source = Some (js ''kb''),
     reply_module = Some (js ''general''), reply_detected_module = None, reply_confidence = Some 1\<rparr>"

definition stats_ok :: "stats_data response" where
  "stats_ok = \<lparr>status = 200, content_type = Some (js ''application/json; charset=utf-8''),
     json_body = Inr \<lparr>knowledge_count = Some 3, training_count = Some 2, conversation_count = None\<rparr>\<rparr>"

definition stats_500 :: "stats_data response" where
  "stats_500 = \<lparr>status = 500, content_type = Some (js ''application/json''),
     json_body = Inr \<lparr>knowledge_count = Some 3, training_count = Some 2, conversation_count = None\<rparr>\<rparr>"





definition network_down :: js_error where
  "network_down = JsError TypeErrorClass (js ''Failed to fetch'')"

definition stats_url :: jsstring where
  "stats_url = js ''http://localhost:5000/admin/stats''"

section \<open>Example inputs of the formatter\<close>

definition prose_with_date :: jsstring where
  "prose_with_date = js ''Pay by May 5. Thanks''"

definition room_steps :: jsstring where
  "room_steps = js ''Room 5 has 3. items < 4. x'' @ [10] @ js ''2. b''"

definition crlf_steps :: jsstring where
  "crlf_steps = js ''1. a'' @ [13, 10] @ js ''2. b''"

section \<open>Lemmas on strings, search and pagination\<close>

lemma startsWith_iff: "startsWith s p \<longleftrightarrow> (\<exists>post. s = p @ post)"
  by (induction s p rule: startsWith.induct) auto

lemma includes_iff: "includes_str s p \<longleftrightarrow> (\<exists>pre post. s = pre @ p @ post)"
proof (induction s)
  case Nil
  show ?case by auto
next
  case (Cons x xs)
  show ?case
  proof
    assume "includes_str (x # xs) p"
    then consider "startsWith (x # xs) p" | "includes_str xs p" by auto
    then show "\<exists>pre post. x # xs = pre @ p @ post"
    proof cases
      case 1
      then obtain post where "x # xs = p @ post" by (auto simp: startsWith_iff)
      then have "x # xs = [] @ p @ post" by simp
      then show ?thesis by blast
    next
      case 2
      then obtain pre post where "xs = pre @ p @ post" using Cons.IH by blast
      then have "x # xs = (x # pre) @ p @ post" by simp
      then show ?thesis by blast
    qed
  next
    assume "\<exists>pre post. x # xs = pre @ p @ post"
    then obtain pre post where eq: "x # xs = pre @ p @ post" by blast
    show "includes_str (x # xs) p"
    proof (cases pre)
      case Nil
      with eq have "startsWith (x # xs) p" by (auto simp: startsWith_iff)
      then show ?thesis by simp
    next
      case (Cons y ys)
      with eq have "xs = ys @ p @ post" by simp
      then have "includes_str xs p" using Cons.IH by blast
      then show ?thesis by simp
    qed
  qed
qed

lemma toLowerCase_Nil_iff:
  assumes "\<forall>t. t \<noteq> [] \<longrightarrow> unicodeLower t \<noteq> []"
  shows "toLowerCase unicodeLower s = [] \<longleftrightarrow> s = []"
proof (cases "list_all (\<lambda>c. c < 128) s")
  case True
  then show ?thesis by (simp add: toLowerCase_def)
next
  case False
  then have ne: "s \<noteq> []" by auto
  with assms have "unicodeLower s \<noteq> []" by blast
  with False ne show ?thesis by (simp add: toLowerCase_def)
qed

lemma toLowerCase_latin:
  "list_all (\<lambda>c. c < 128) s \<Longrightarrow> toLowerCase unicodeLower s = map lowerUnit s"
  by (simp add: toLowerCase_def)

lemma includes_lower_iff:
  "includes_str (toLowerCase unicodeLower field) (toLowerCase unicodeLower text) \<longleftrightarrow>
     ci_substring unicodeLower text field"
  unfolding includes_iff ci_substring_def ..

lemma matchesSearch_iff:
  assumes "\<forall>t. t \<noteq> [] \<longrightarrow> unicodeLower t \<noteq> []"
  shows "matchesSearch unicodeLower (toLowerCase unicodeLower text) item \<longleftrightarrow>
           text_passes unicodeLower text item"
proof -
  have empty: "toLowerCase unicodeLower text = [] \<longleftrightarrow> text = []"
    by (rule toLowerCase_Nil_iff [OF assms])
  have kw: "(case item_keywords item of
        None \<Rightarrow> False
      | Some kws \<Rightarrow> list_ex (ci_substring unicodeLower text) kws) \<longleftrightarrow>
      (\<exists>kws kw. item_keywords item = Some kws \<and> kw \<in> set kws \<and>
        ci_substring unicodeLower text kw)"
  proof (cases "item_keywords item")
    case None
    then show ?thesis by simp
  next
    case (Some kws)
    then show ?thesis by (simp add: list_ex_iff) blast
  qed
  show ?thesis
    unfolding matchesSearch_def text_passes_def empty includes_lower_iff kw ..
qed

lemma search_array:
  assumes "knowledgeData s = ItemArray items"
  shows "admin_step unicodeLower CallSearchKnowledge s =
           updateKnowledgePagination (renderKnowledgeTable
             (s\<lparr>filteredKnowledgeData :=
                  filter (\<lambda>item.
                      matchesSearch unicodeLower
                        (toLowerCase unicodeLower (searchKnowledgeValue s)) item \<and>
                      matchesModule (moduleFilterValue s) item) items,
                currentKnowledgePage := 1\<rparr>))"
  using assms by (simp add: searchKnowledge_def Let_def)

lemma search_not_array:
  assumes "knowledgeData s = NotIterable"
  shows "admin_step unicodeLower CallSearchKnowledge s = s"
  using assms by (simp add: searchKnowledge_def Let_def)


lemma filtered_searchKnowledge:
  assumes "knowledgeData s = ItemArray items"
  shows "filteredKnowledgeData (admin_step unicodeLower CallSearchKnowledge s) =
     filter (\<lambda>item. matchesSearch unicodeLower
                      (toLowerCase unicodeLower (searchKnowledgeValue s)) item \<and>
                    matchesModule (moduleFilterValue s) item) items"
  unfolding search_array [OF assms]
  by (simp add: updateKnowledgePagination_def renderKnowledgeTable_def)


lemma totalPages_div: "totalPages s = (int (length (filteredKnowledgeData s)) + 9) div 10"
  unfolding totalPages_def itemsPerPage_def by simp linarith

lemma pageData_take_drop:
  assumes "1 \<le> currentKnowledgePage s"
  shows "pageData s = take 10 (drop (nat ((currentKnowledgePage s - 1) * 10)) (filteredKnowledgeData s))"
proof -
  let ?n = "int (length (filteredKnowledgeData s))"
  let ?k = "(currentKnowledgePage s - 1) * 10"
  have k0: "0 \<le> ?k" using assms by simp
  show ?thesis
  proof (cases "?k \<le> ?n")
    case True
    then show ?thesis using k0
      by (auto simp: pageData_def slice_def itemsPerPage_def Let_def min_def)
  next
    case False
    then show ?thesis using k0
      by (auto simp: pageData_def slice_def itemsPerPage_def Let_def min_def)
  qed
qed

lemma length_pageData:
  assumes "1 \<le> currentKnowledgePage s"
  shows "length (pageData s) =
           min 10 (length (filteredKnowledgeData s) - nat ((currentKnowledgePage s - 1) * 10))"
  by (simp add: pageData_take_drop [OF assms] min.commute)

lemma nth_pageData:
  assumes "1 \<le> currentKnowledgePage s" and "i < length (pageData s)"
  shows "pageData s ! i = filteredKnowledgeData s ! (nat ((currentKnowledgePage s - 1) * 10) + i)"
proof -
  let ?k = "nat ((currentKnowledgePage s - 1) * 10)"
  from assms(2) have i: "i < 10" and k: "i < length (filteredKnowledgeData s) - ?k"
    unfolding pageData_take_drop [OF assms(1)] by simp_all
  from k have "?k \<le> length (filteredKnowledgeData s)" by linarith
  then have "drop ?k (filteredKnowledgeData s) ! i = filteredKnowledgeData s ! (?k + i)"
    by (simp add: nth_drop)
  with i show ?thesis
    unfolding pageData_take_drop [OF assms(1)] by simp
qed



lemma pagination_targets:
  assumes "1 \<le> currentKnowledgePage s"
  shows "\<forall>b \<in> set (knowledgePagination (updateKnowledgePagination s)).
           \<not> btn_disabled b \<longrightarrow> 1 \<le> btn_target b"
  using assms by (auto simp: updateKnowledgePagination_def)

lemma page_inv_search:
  assumes "1 \<le> currentKnowledgePage s"
    and "\<forall>b \<in> set (knowledgePagination s). \<not> btn_disabled b \<longrightarrow> 1 \<le> btn_target b"
  shows "1 \<le> currentKnowledgePage (admin_step unicodeLower CallSearchKnowledge s) \<and>
         (\<forall>b \<in> set (knowledgePagination (admin_step unicodeLower CallSearchKnowledge s)).
            \<not> btn_disabled b \<longrightarrow> 1 \<le> btn_target b)"
proof (cases "knowledgeData s")
  case NotIterable
  with assms show ?thesis by (simp only: search_not_array)
next
  case (ItemArray items)
  let ?t = "renderKnowledgeTable (s\<lparr>filteredKnowledgeData :=
      filter (\<lambda>item. matchesSearch unicodeLower
          (toLowerCase unicodeLower (searchKnowledgeValue s)) item \<and>
        matchesModule (moduleFilterValue s) item) items,
      currentKnowledgePage := 1\<rparr>)"
  have one: "currentKnowledgePage ?t = 1" by (simp add: renderKnowledgeTable_def)
  have "currentKnowledgePage (updateKnowledgePagination ?t) = 1"
    using one by (simp add: updateKnowledgePagination_def)
  moreover from one have "1 \<le> currentKnowledgePage ?t" by simp
  note pagination_targets [OF this]
  ultimately show ?thesis unfolding search_array [OF ItemArray] by simp
qed

lemma page_inv_step:
  assumes "1 \<le> currentKnowledgePage s"
    and "\<forall>b \<in> set (knowledgePagination s). \<not> btn_disabled b \<longrightarrow> 1 \<le> btn_target b"
    and "from_page e"
  shows "1 \<le> currentKnowledgePage (admin_step unicodeLower e s) \<and>
         (\<forall>b \<in> set (knowledgePagination (admin_step unicodeLower e s)).
            \<not> btn_disabled b \<longrightarrow> 1 \<le> btn_target b)"
proof (cases e)
  case (SetSearchValue v)
  with assms show ?thesis by simp
next
  case (SetModuleFilter v)
  with assms show ?thesis by simp
next
  case CallSearchKnowledge
  with page_inv_search [OF assms(1,2)] show ?thesis by simp
next
  case CallFilterByModule
  with page_inv_search [OF assms(1,2), of unicodeLower] show ?thesis
    by (simp add: filterByModule_def)
next
  case (CallChangeKnowledgePage p)
  with assms(3) show ?thesis by simp
next
  case (ClickPageButton i)
  show ?thesis
  proof (cases "i < length (knowledgePagination s) \<and> \<not> btn_disabled (knowledgePagination s ! i)")
    case True
    then have "knowledgePagination s ! i \<in> set (knowledgePagination s)" by simp
    with assms(2) True have "1 \<le> btn_target (knowledgePagination s ! i)" by blast
    with True ClickPageButton assms(2) show ?thesis
      by (simp add: clickPageButton_def changeKnowledgePage_def renderKnowledgeTable_def)
  next
    case False
    with ClickPageButton assms show ?thesis by (auto simp: clickPageButton_def)
  qed
next
  case (LoadKnowledgeBaseDone outcome)
  show ?thesis
  proof (cases outcome)
    case LoadRejected
    with LoadKnowledgeBaseDone assms show ?thesis by (simp add: loadKnowledgeBase_def)
  next
    case LoadedNotIterable
    with LoadKnowledgeBaseDone assms show ?thesis by (simp add: loadKnowledgeBase_def)
  next
    case (LoadedItems items)
    let ?t = "renderKnowledgeTable
      (s\<lparr>knowledgeData := ItemArray items, filteredKnowledgeData := items\<rparr>)"
    have page: "currentKnowledgePage ?t = currentKnowledgePage s"
      by (simp add: renderKnowledgeTable_def)
    have eq: "admin_step unicodeLower e s = updateKnowledgePagination ?t"
      using LoadKnowledgeBaseDone LoadedItems by (simp add: loadKnowledgeBase_def)
    have "currentKnowledgePage (updateKnowledgePagination ?t) = currentKnowledgePage s"
      using page by (simp add: updateKnowledgePagination_def)
    moreover from page assms(1) have "1 \<le> currentKnowledgePage ?t" by simp
    note pagination_targets [OF this]
    ultimately show ?thesis unfolding eq using assms(1) by simp
  qed
qed

lemma page_inv_run:
  assumes "1 \<le> currentKnowledgePage s"
    and "\<forall>b \<in> set (knowledgePagination s). \<not> btn_disabled b \<longrightarrow> 1 \<le> btn_target b"
    and "\<forall>e \<in> set es. from_page e"
  shows "1 \<le> currentKnowledgePage (admin_run unicodeLower es s)"
  using assms
proof (induction es arbitrary: s)
  case Nil
  then show ?case by simp
next
  case (Cons e es)
  from Cons.prems have "from_page e" by simp
  from page_inv_step [OF Cons.prems(1,2) this, of unicodeLower] Cons.prems(3)
    Cons.IH [of "admin_step unicodeLower e s"]
  show ?case by simp
qed

lemmas example_defs =
  two_items_def payroll_item_def leave_item_def js_def toLowerCase_def lowerUnit_def
  matchesSearch_def matchesModule_def latin_only_def

section \<open>Lemmas on trimming\<close>

lemma trim_Nil_iff: "trim s = [] \<longleftrightarrow> (\<forall>c \<in> set s. isWhiteSpace c)"
proof -
  have "trim s = [] \<longleftrightarrow> (\<forall>c \<in> set (dropWhile isWhiteSpace s). isWhiteSpace c)"
    by (simp add: trim_def dropWhile_eq_Nil_conv)
  also have "\<dots> \<longleftrightarrow> dropWhile isWhiteSpace s = []"
  proof
    assume all: "\<forall>c \<in> set (dropWhile isWhiteSpace s). isWhiteSpace c"
    show "dropWhile isWhiteSpace s = []"
    proof (rule ccontr)
      assume ne: "dropWhile isWhiteSpace s \<noteq> []"
      then have "\<not> isWhiteSpace (hd (dropWhile isWhiteSpace s))" by (rule hd_dropWhile)
      moreover from ne have "hd (dropWhile isWhiteSpace s) \<in> set (dropWhile isWhiteSpace s)" by simp
      ultimately show False using all by blast
    qed
  next
    assume "dropWhile isWhiteSpace s = []"
    then show "\<forall>c \<in> set (dropWhile isWhiteSpace s). isWhiteSpace c"
      by (simp only: list.set ball_empty)
  qed
  also have "\<dots> \<longleftrightarrow> (\<forall>c \<in> set s. isWhiteSpace c)"
    by (simp add: dropWhile_eq_Nil_conv)
  finally show ?thesis .
qed

lemma trim_decomp:
  "\<exists>l r. s = l @ trim s @ r \<and> (\<forall>c \<in> set l. isWhiteSpace c) \<and> (\<forall>c \<in> set r. isWhiteSpace c)"
proof -
  let ?l = "takeWhile isWhiteSpace s"
  let ?m = "dropWhile isWhiteSpace s"
  let ?r = "rev (takeWhile isWhiteSpace (rev ?m))"
  have "rev ?m = takeWhile isWhiteSpace (rev ?m) @ dropWhile isWhiteSpace (rev ?m)" by simp
  then have "?m = rev (dropWhile isWhiteSpace (rev ?m)) @ ?r"
    by (metis rev_append rev_rev_ident)
  then have "s = ?l @ trim s @ ?r"
    unfolding trim_def by (metis takeWhile_dropWhile_id)
  moreover have "\<forall>c \<in> set ?l. isWhiteSpace c" by (auto dest: set_takeWhileD)
  moreover have "\<forall>c \<in> set ?r. isWhiteSpace c" by (auto dest: set_takeWhileD)
  ultimately show ?thesis by blast
qed

lemma trim_ends:
  assumes "trim s \<noteq> []"
  shows "\<not> isWhiteSpace (hd (trim s)) \<and> \<not> isWhiteSpace (last (trim s))"
proof -
  let ?m = "dropWhile isWhiteSpace s"
  let ?d = "dropWhile isWhiteSpace (rev ?m)"
  from assms have d: "?d \<noteq> []" by (simp add: trim_def)
  then have "\<not> isWhiteSpace (hd ?d)" by (rule hd_dropWhile)
  then have l: "\<not> isWhiteSpace (last (trim s))"
    using d by (simp add: trim_def last_rev)
  have m: "?m \<noteq> []"
  proof
    assume "?m = []"
    then have "?d = []" by (simp only: rev.simps dropWhile.simps)
    with d show False by blast
  qed
  then have hm: "\<not> isWhiteSpace (hd ?m)" by (rule hd_dropWhile)
  have "rev ?m = takeWhile isWhiteSpace (rev ?m) @ ?d" by simp
  then have "?m = rev ?d @ rev (takeWhile isWhiteSpace (rev ?m))"
    by (metis rev_append rev_rev_ident)
  then have "hd ?m = hd (rev ?d)" using d by (metis hd_append2 rev_is_Nil_conv)
  with hm have "\<not> isWhiteSpace (hd (trim s))" by (simp add: trim_def)
  with l show ?thesis by simp
qed

lemma removeAt_append_last: "removeAt (length xs) (xs @ [x]) = xs"
  by (simp add: removeAt_def)

lemma showNat_500: "showNat 500 = js ''500''"
  by (simp add: showNat.simps js_def)

section \<open>Lemmas on the chat\<close>

lemma chat_inv_step:
  assumes "loading s \<longleftrightarrow> inflight s \<noteq> []" and "length (inflight s) \<le> 1"
  shows "(loading (chat_step e s) \<longleftrightarrow> inflight (chat_step e s) \<noteq> []) \<and>
         length (inflight (chat_step e s)) \<le> 1"
proof (cases e)
  case (Send now)
  then show ?thesis using assms by (auto simp: sendMessage_def Let_def)
next
  case (FetchSettled i outcome now)
  show ?thesis
  proof (cases "i < length (inflight s) \<and> inflight s ! i = AwaitFetch")
    case True
    with assms(2) have i: "i = 0" by linarith
    with True assms(2) obtain x where x: "inflight s = [x]"
      by (cases "inflight s") auto
    then show ?thesis using FetchSettled True i assms
      by (cases outcome) (auto simp: fetchSettled_def sendFailed_def removeAt_def Let_def)
  next
    case False
    then show ?thesis using FetchSettled assms by (auto simp: fetchSettled_def)
  qed
next
  case (JsonSettled i outcome now)
  show ?thesis
  proof (cases "i < length (inflight s) \<and> inflight s ! i = AwaitJson")
    case True
    with assms(2) have i: "i = 0" by linarith
    with True assms(2) obtain x where x: "inflight s = [x]"
      by (cases "inflight s") auto
    then show ?thesis using JsonSettled True i assms
      by (auto simp: jsonSettled_def sendFailed_def removeAt_def Let_def
          split: sum.splits option.splits)
  next
    case False
    then show ?thesis using JsonSettled assms by (auto simp: jsonSettled_def)
  qed
qed (use assms in auto)

lemma chat_inv_run:
  assumes "loading s \<longleftrightarrow> inflight s \<noteq> []" and "length (inflight s) \<le> 1"
  shows "(loading (chat_run es s) \<longleftrightarrow> inflight (chat_run es s) \<noteq> []) \<and>
         length (inflight (chat_run es s)) \<le> 1"
  using assms
proof (induction es arbitrary: s)
  case Nil
  then show ?case by simp
next
  case (Cons e es)
  from chat_inv_step [OF Cons.prems, of e] Cons.IH [of "chat_step e s"]
  show ?case by simp
qed

lemma chat_inv_reachable:
  "(loading (chat_run es chat_initial) \<longleftrightarrow> inflight (chat_run es chat_initial) \<noteq> []) \<and>
   length (inflight (chat_run es chat_initial)) \<le> 1"
  by (rule chat_inv_run) (simp_all add: chat_initial_def)

lemma pending_step:
  assumes "loading s" and "\<not> ends_request e"
  shows "messages (chat_step e s) = messages s \<and> requests (chat_step e s) = requests s \<and>
         loading (chat_step e s)"
proof (cases e)
  case (Send now)
  then show ?thesis using assms by (simp add: sendMessage_def)
next
  case (FetchSettled i outcome now)
  with assms(2) obtain r where "outcome = Inr r" by (cases outcome) auto
  with FetchSettled assms(1) show ?thesis by (simp add: fetchSettled_def)
next
  case (JsonSettled i outcome now)
  with assms(2) show ?thesis by simp
qed (use assms in auto)

lemma pending_run:
  assumes "loading s" and "\<forall>e \<in> set es. \<not> ends_request e"
  shows "messages (chat_run es s) = messages s \<and> requests (chat_run es s) = requests s \<and>
         loading (chat_run es s)"
  using assms
proof (induction es arbitrary: s)
  case Nil
  then show ?case by simp
next
  case (Cons e es)
  from Cons.prems have step: "messages (chat_step e s) = messages s \<and>
      requests (chat_step e s) = requests s \<and> loading (chat_step e s)"
    by (intro pending_step) auto
  with Cons.IH [of "chat_step e s"] Cons.prems show ?case by simp
qed

section \<open>Lemmas on the matcher and the step rule\<close>

lemma run_lit:
  "run (Match (lit p) # k) t c = (if startsWith t p then run k (drop (length p) t) c else None)"
proof (induction p arbitrary: t)
  case Nil
  show ?case by simp
next
  case (Cons a p)
  show ?case
  proof (cases t)
    case Nil
    then show ?thesis by simp
  next
    case (Cons x xs)
    with Cons.IH [of xs] show ?thesis by simp
  qed
qed

lemma run_star_all:
  assumes "\<forall>x \<in> set xs. in_class cl x"
    and "rest = [] \<or> \<not> in_class cl (hd rest)"
    and "run k rest c = Some r"
  shows "run (Match (Star cl) # k) (xs @ rest) c = Some r"
  using assms(1)
proof (induction xs)
  case Nil
  show ?case
  proof (cases rest)
    case Nil
    with assms(3) show ?thesis by simp
  next
    case (Cons y ys)
    with assms(2,3) show ?thesis by simp
  qed
next
  case (Cons x xs)
  then show ?case by simp
qed

lemma run_lazy_until:
  assumes "\<forall>x \<in> set body. in_class cl x"
    and "\<forall>i < length body. run k (drop i body @ rest) c = None"
    and "run k rest c = Some r"
  shows "run (Match (Lazy cl) # k) (body @ rest) c = Some r"
  using assms(1,2)
proof (induction body)
  case Nil
  show ?case
  proof (cases rest)
    case Nil
    with assms(3) show ?thesis by simp
  next
    case (Cons y ys)
    with assms(3) show ?thesis by simp
  qed
next
  case (Cons x body)
  from Cons.prems(2) have "run k (drop 0 (x # body) @ rest) c = None" by blast
  then have here: "run k (x # body @ rest) c = None" by simp
  have "\<forall>i < length body. run k (drop i body @ rest) c = None"
  proof (intro allI impI)
    fix i assume "i < length body"
    then have "Suc i < length (x # body)" by simp
    with Cons.prems(2) have "run k (drop (Suc i) (x # body) @ rest) c = None" by blast
    then show "run k (drop i body @ rest) c = None" by simp
  qed
  with Cons.IH Cons.prems(1) have "run (Match (Lazy cl) # k) (body @ rest) c = Some r" by simp
  with here Cons.prems(1) show ?case by simp
qed

lemma ahead_br_eos:
  "run (Match (Ahead (Alt (lit (js ''<br>'')) Eos)) # k) t c =
     (if t = [] \<or> startsWith t (js ''<br>'') then run k t c else None)"
  by (cases "startsWith t (js ''<br>'')") (simp_all add: run_lit)

lemma startsWith_br_hd:
  assumes "startsWith t (js ''<br>'')"
  shows "\<exists>u. t = 60 # u"
  using assms by (cases t) (auto simp: js_def)

lemma step_match:
  assumes ds: "ds \<noteq> []" "\<forall>d \<in> set ds. in_class Digit d"
    and ws: "\<forall>w \<in> set ws. isWhiteSpace w"
    and body: "\<forall>b \<in> set body. in_class Dot b" "body = [] \<or> \<not> isWhiteSpace (hd body)"
      "\<forall>i < length body. \<not> startsWith (drop i body @ rest) (js ''<br>'')"
    and rest: "rest = [] \<or> startsWith rest (js ''<br>'')"
  shows "run [Match stepRegex] (ds @ [46] @ ws @ body @ rest) c =
           Some (rest, c(1 \<mapsto> ds, 2 \<mapsto> body))"
proof -
  let ?look = "Match (Ahead (Alt (lit (js ''<br>'')) Eos))"
  let ?s = "ds @ [46] @ ws @ body @ rest"
  let ?c1 = "c(1 \<mapsto> ds)"
  from ds obtain d ds' where dsc: "ds = d # ds'" by (cases ds) auto
  \<comment> \<open>the lookahead after the lazy group\<close>
  have close2: "run [Close 2 (body @ rest), ?look] rest ?c1 = Some (rest, ?c1(2 \<mapsto> body))"
    using rest by (auto simp: ahead_br_eos simp del: run.simps(13))
  have fail2: "\<forall>i < length body. run [Close 2 (body @ rest), ?look] (drop i body @ rest) ?c1 = None"
  proof (intro allI impI)
    fix i assume i: "i < length body"
    then have "drop i body @ rest \<noteq> []" by simp
    moreover from i body(3) have "\<not> startsWith (drop i body @ rest) (js ''<br>'')" by blast
    ultimately show "run [Close 2 (body @ rest), ?look] (drop i body @ rest) ?c1 = None"
      by (simp add: ahead_br_eos del: run.simps(13))
  qed
  have lazy: "run [Match (Lazy Dot), Close 2 (body @ rest), ?look] (body @ rest) ?c1 =
      Some (rest, ?c1(2 \<mapsto> body))"
    by (rule run_lazy_until [OF body(1) fail2 close2])
  \<comment> \<open>the white space before the group\<close>
  have nows: "body @ rest = [] \<or> \<not> in_class Space (hd (body @ rest))"
  proof (cases body)
    case Nil
    with rest show ?thesis by (auto dest!: startsWith_br_hd simp: isWhiteSpace_def)
  next
    case (Cons b bs)
    with body(2) show ?thesis by simp
  qed
  have group2: "run [Match (Seq (Group 2 (Lazy Dot)) (Ahead (Alt (lit (js ''<br>'')) Eos)))]
      (body @ rest) ?c1 = Some (rest, ?c1(2 \<mapsto> body))"
    using lazy by simp
  have spaces: "run [Match (Star Space),
      Match (Seq (Group 2 (Lazy Dot)) (Ahead (Alt (lit (js ''<br>'')) Eos)))]
      (ws @ body @ rest) ?c1 = Some (rest, ?c1(2 \<mapsto> body))"
    by (rule run_star_all [OF _ nows group2]) (use ws in simp)
  \<comment> \<open>the digits and the dot\<close>
  let ?k = "[Close 1 ?s, Match (Seq (Chr (Unit 46)) (Seq (Star Space)
      (Seq (Group 2 (Lazy Dot)) (Ahead (Alt (lit (js ''<br>'')) Eos)))))]"
  have len: "length ?s - length (46 # ws @ body @ rest) = length ds" by simp
  have "take (length ds) ?s = ds" by simp
  with len have cap: "take (length ?s - length (46 # ws @ body @ rest)) ?s = ds" by simp
  have dot: "run ?k (46 # ws @ body @ rest) c = Some (rest, ?c1(2 \<mapsto> body))"
    using spaces by (simp only: run.simps cap in_class.simps if_True refl)
  have "run (Match (Star Digit) # ?k) (ds' @ 46 # ws @ body @ rest) c =
      Some (rest, ?c1(2 \<mapsto> body))"
    by (rule run_star_all [OF _ _ dot]) (use ds dsc in auto)
  then have "run (Match (Chr Digit) # Match (Star Digit) # ?k) ?s c =
      Some (rest, ?c1(2 \<mapsto> body))"
    using ds dsc by simp
  then show ?thesis
    by (simp add: stepRegex_def)
qed

lemma step_nomatch_Nil: "run [Match stepRegex] [] c = None"
  by (simp add: stepRegex_def)

lemma step_nomatch: "\<not> in_class Digit x \<Longrightarrow> run [Match stepRegex] (x # xs) c = None"
  by (auto simp: stepRegex_def)

lemma replaceAll_match:
  assumes "run [Match re] (x # xs) Map.empty = Some (rest, caps)"
    and "length rest < Suc (length xs)"
  shows "replaceAll_re re tpl (x # xs) = expand caps tpl @ replaceAll_re re tpl rest"
  using assms by simp

lemma replaceAll_skip:
  assumes "\<forall>x \<in> set pre. \<forall>xs. run [Match re] (x # xs) Map.empty = None"
  shows "replaceAll_re re tpl (pre @ t) = pre @ replaceAll_re re tpl t"
  using assms by (induction pre) simp_all

lemma replaceAll_id:
  assumes "\<forall>x \<in> set s. \<forall>xs. run [Match re] (x # xs) Map.empty = None"
    and "run [Match re] [] Map.empty = None"
  shows "replaceAll_re re tpl s = s"
  using replaceAll_skip [OF assms(1), of tpl "[]"] assms(2) by simp

lemma replaceFirst_id:
  assumes "\<forall>x \<in> set s. \<forall>xs. run [Match re] (x # xs) Map.empty = None"
    and "run [Match re] [] Map.empty = None"
  shows "replaceFirst_re re tpl s = s"
  using assms by (induction s) simp_all

lemma stepRule_first:
  assumes pre: "\<forall>p \<in> set pre. \<not> in_class Digit p"
    and ds: "ds \<noteq> []" "\<forall>d \<in> set ds. in_class Digit d"
    and ws: "\<forall>w \<in> set ws. isWhiteSpace w"
    and body: "\<forall>b \<in> set body. in_class Dot b" "body = [] \<or> \<not> isWhiteSpace (hd body)"
      "\<forall>i < length body. \<not> startsWith (drop i body @ rest) (js ''<br>'')"
    and rest: "rest = [] \<or> startsWith rest (js ''<br>'')"
  shows "stepRule (pre @ ds @ [46] @ ws @ body @ rest) =
           pre @ js ''<div class=\"step-item\"><strong>'' @ ds @ js ''.</strong> '' @ body @
           js ''</div>'' @ stepRule rest"
proof -
  let ?t = "ds @ [46] @ ws @ body @ rest"
  have skip: "stepRule (pre @ ?t) = pre @ stepRule ?t"
    unfolding stepRule_def
    by (rule replaceAll_skip) (use pre in \<open>simp add: step_nomatch\<close>)
  from ds obtain d ds' where dsc: "ds = d # ds'" by (cases ds) auto
  have m: "run [Match stepRegex] ?t Map.empty = Some (rest, [1 \<mapsto> ds, 2 \<mapsto> body])"
    by (rule step_match [OF ds ws body rest])
  have t: "?t = d # (ds' @ [46] @ ws @ body @ rest)" by (simp add: dsc)
  have "replaceAll_re stepRegex stepTemplate (d # (ds' @ [46] @ ws @ body @ rest)) =
      expand [1 \<mapsto> ds, 2 \<mapsto> body] stepTemplate @ replaceAll_re stepRegex stepTemplate rest"
  proof (rule replaceAll_match)
    from m show "run [Match stepRegex] (d # (ds' @ [46] @ ws @ body @ rest)) Map.empty =
        Some (rest, [1 \<mapsto> ds, 2 \<mapsto> body])"
      by (simp only: t)
    show "length rest < Suc (length (ds' @ [46] @ ws @ body @ rest))" by simp
  qed
  then have "replaceAll_re stepRegex stepTemplate ?t =
      expand [1 \<mapsto> ds, 2 \<mapsto> body] stepTemplate @ replaceAll_re stepRegex stepTemplate rest"
    by (simp only: t)
  then have "stepRule ?t = js ''<div class=\"step-item\"><strong>'' @ ds @ js ''.</strong> '' @ body @
           js ''</div>'' @ stepRule rest"
    by (simp add: stepRule_def stepTemplate_def)
  with skip show ?thesis by simp
qed

lemma run_chars:
  assumes "run k s c = Some (rest, c')"
    and "set s \<subseteq> A"
    and "\<forall>n v. c n = Some v \<longrightarrow> set v \<subseteq> A"
    and "\<forall>n st. Close n st \<in> set k \<longrightarrow> set st \<subseteq> A"
  shows "set rest \<subseteq> A \<and> (\<forall>n v. c' n = Some v \<longrightarrow> set v \<subseteq> A)"
  using assms
proof (induction k s c arbitrary: rest c' rule: run.induct)
  case (1 s c)
  then show ?case by simp
next
  case (2 n start k s c)
  from "2.prems"(4) have "set start \<subseteq> A" by simp
  with set_take_subset [of "length start - length s" start]
  have "set (take (length start - length s) start) \<subseteq> A" by blast
  with "2.prems"(3)
  have caps: "\<forall>m v. (c(n \<mapsto> take (length start - length s) start)) m = Some v \<longrightarrow> set v \<subseteq> A"
    by simp
  from "2.prems"(4) have closes: "\<forall>m st. Close m st \<in> set k \<longrightarrow> set st \<subseteq> A" by simp
  from "2.prems"(1)
  have "run k s (c(n \<mapsto> take (length start - length s) start)) = Some (rest, c')" by simp
  from "2.IH" [OF this "2.prems"(2) caps closes] show ?case .
next
  case (3 k s c)
  from "3.prems"(4) have closes: "\<forall>m st. Close m st \<in> set k \<longrightarrow> set st \<subseteq> A" by simp
  from "3.prems"(1) have "run k s c = Some (rest, c')" by simp
  from "3.IH" [OF this "3.prems"(2,3) closes] show ?case .
next
  case (4 cl k c)
  then show ?case by simp
next
  case (5 cl k x xs c)
  from "5.prems"(4) have closes: "\<forall>m st. Close m st \<in> set k \<longrightarrow> set st \<subseteq> A" by simp
  from "5.prems"(1) have cl: "in_class cl x" and r: "run k xs c = Some (rest, c')"
    by (simp_all split: if_splits)
  from "5.prems"(2) have "set xs \<subseteq> A" by simp
  from "5.IH" [OF cl r this "5.prems"(3) closes] show ?case .
next
  case (6 a b k s c)
  from "6.prems"(4)
  have closes: "\<forall>m st. Close m st \<in> set (Match a # Match b # k) \<longrightarrow> set st \<subseteq> A" by simp
  from "6.prems"(1) have "run (Match a # Match b # k) s c = Some (rest, c')" by simp
  from "6.IH" [OF this "6.prems"(2,3) closes] show ?case .
next
  case (7 a b k s c)
  from "7.prems"(4) have ca: "\<forall>m st. Close m st \<in> set (Match a # k) \<longrightarrow> set st \<subseteq> A"
    and cb: "\<forall>m st. Close m st \<in> set (Match b # k) \<longrightarrow> set st \<subseteq> A" by simp_all
  show ?case
  proof (cases "run (Match a # k) s c")
    case None
    with "7.prems"(1) have "run (Match b # k) s c = Some (rest, c')" by simp
    from "7.IH"(2) [OF None this "7.prems"(2,3) cb] show ?thesis .
  next
    case (Some r)
    with "7.prems"(1) have "run (Match a # k) s c = Some (rest, c')" by simp
    from "7.IH"(1) [OF this "7.prems"(2,3) ca] show ?thesis .
  qed
next
  case (8 cl k c)
  from "8.prems"(4) have closes: "\<forall>m st. Close m st \<in> set k \<longrightarrow> set st \<subseteq> A" by simp
  from "8.prems"(1) have "run k [] c = Some (rest, c')" by simp
  from "8.IH" [OF this "8.prems"(2,3) closes] show ?case .
next
  case (9 cl k x xs c)
  from "9.prems"(4) have closes: "\<forall>m st. Close m st \<in> set k \<longrightarrow> set st \<subseteq> A" by simp
  from "9.prems"(2) have xs: "set xs \<subseteq> A" by simp
  show ?case
  proof (cases "in_class cl x")
    case True
    show ?thesis
    proof (cases "run (Match (Star cl) # k) xs c")
      case None
      with True "9.prems"(1) have "run k (x # xs) c = Some (rest, c')" by simp
      from "9.IH"(2) [OF True None this "9.prems"(2,3) closes] show ?thesis .
    next
      case (Some r)
      with True "9.prems"(1) have "run (Match (Star cl) # k) xs c = Some (rest, c')" by simp
      from "9.IH"(1) [OF True this xs "9.prems"(3,4)] show ?thesis .
    qed
  next
    case False
    with "9.prems"(1) have "run k (x # xs) c = Some (rest, c')" by simp
    from "9.IH"(3) [OF False this "9.prems"(2,3) closes] show ?thesis .
  qed
next
  case (10 cl k c)
  from "10.prems"(4) have closes: "\<forall>m st. Close m st \<in> set k \<longrightarrow> set st \<subseteq> A" by simp
  from "10.prems"(1) have "run k [] c = Some (rest, c')" by simp
  from "10.IH" [OF this "10.prems"(2,3) closes] show ?case .
next
  case (11 cl k x xs c)
  from "11.prems"(4) have closes: "\<forall>m st. Close m st \<in> set k \<longrightarrow> set st \<subseteq> A" by simp
  from "11.prems"(2) have xs: "set xs \<subseteq> A" by simp
  show ?case
  proof (cases "run k (x # xs) c")
    case None
    with "11.prems"(1)
    have in_cl: "in_class cl x" and r: "run (Match (Lazy cl) # k) xs c = Some (rest, c')"
      by (simp_all split: if_splits)
    from "11.IH"(2) [OF None in_cl r xs "11.prems"(3,4)] show ?thesis .
  next
    case (Some r)
    with "11.prems"(1) have "run k (x # xs) c = Some (rest, c')" by simp
    from "11.IH"(1) [OF this "11.prems"(2,3) closes] show ?thesis .
  qed
next
  case (12 n a k s c)
  from "12.prems"(2,4)
  have closes: "\<forall>m st. Close m st \<in> set (Match a # Close n s # k) \<longrightarrow> set st \<subseteq> A"
    by auto
  from "12.prems"(1) have "run (Match a # Close n s # k) s c = Some (rest, c')" by simp
  from "12.IH" [OF this "12.prems"(2,3) closes] show ?case .
next
  case (13 a k s c)
  from "13.prems"(4) have closes: "\<forall>m st. Close m st \<in> set k \<longrightarrow> set st \<subseteq> A" by simp
  have c1: "\<forall>m st. Close m st \<in> set [Match a] \<longrightarrow> set st \<subseteq> A" by simp
  from "13.prems"(1) obtain r where r: "run [Match a] s c = Some r"
    and k: "run k s (snd r) = Some (rest, c')"
    by (cases "run [Match a] s c") simp_all
  from r have r': "run [Match a] s c = Some (fst r, snd r)" by simp
  from "13.IH"(1) [OF r' "13.prems"(2,3) c1]
  have caps: "\<forall>n v. snd r n = Some v \<longrightarrow> set v \<subseteq> A" by simp
  from "13.IH"(2) [OF r k "13.prems"(2) caps closes] show ?case .
next
  case (14 k s c)
  from "14.prems"(4) have closes: "\<forall>m st. Close m st \<in> set k \<longrightarrow> set st \<subseteq> A" by simp
  from "14.prems"(1) have e: "s = []" and "run k s c = Some (rest, c')"
    by (simp_all split: if_splits)
  from "14.IH" [OF e this(2) "14.prems"(2,3) closes] show ?case .
qed

lemma expand_chars:
  assumes "\<forall>n v. c n = Some v \<longrightarrow> set v \<subseteq> A"
    and "\<forall>t. Text t \<in> set tpl \<longrightarrow> set t \<subseteq> B"
  shows "set (expand c tpl) \<subseteq> A \<union> B"
  using assms(2)
proof (induction tpl)
  case Nil
  show ?case by simp
next
  case (Cons p ps)
  then have rest: "set (expand c ps) \<subseteq> A \<union> B" by simp
  show ?case
  proof (cases p)
    case (Text t)
    with Cons.prems have "set t \<subseteq> B" by simp
    with rest Text show ?thesis by auto
  next
    case (Ref n)
    have "set (case c n of None \<Rightarrow> [] | Some v \<Rightarrow> v) \<subseteq> A"
    proof (cases "c n")
      case None
      then show ?thesis by simp
    next
      case (Some v)
      with assms(1) have "set v \<subseteq> A" by blast
      with Some show ?thesis by simp
    qed
    with rest Ref show ?thesis by auto
  qed
qed

lemma replaceAll_chars:
  assumes "\<forall>t. Text t \<in> set tpl \<longrightarrow> set t \<subseteq> B"
  shows "set (replaceAll_re re tpl s) \<subseteq> set s \<union> B"
  using assms
proof (induction re tpl s rule: replaceAll_re.induct)
  case (1 re tpl)
  show ?case
  proof (cases "run [Match re] [] Map.empty")
    case None
    then show ?thesis by simp
  next
    case (Some r)
    then have "run [Match re] [] Map.empty = Some (fst r, snd r)" by simp
    from run_chars [OF this, of "{}"] have "\<forall>n v. snd r n = Some v \<longrightarrow> set v \<subseteq> {}" by simp
    from expand_chars [OF this "1.prems"] Some show ?thesis by simp
  qed
next
  case (2 re tpl x xs)
  let ?A = "set (x # xs)"
  show ?case
  proof (cases "run [Match re] (x # xs) Map.empty")
    case None
    with "2.IH"(1) [OF None "2.prems"] show ?thesis by auto
  next
    case (Some r)
    then have "run [Match re] (x # xs) Map.empty = Some (fst r, snd r)" by simp
    from run_chars [OF this, of ?A]
    have rest: "set (fst r) \<subseteq> ?A" and caps: "\<forall>n v. snd r n = Some v \<longrightarrow> set v \<subseteq> ?A"
      by simp_all
    from expand_chars [OF caps "2.prems"] have ex: "set (expand (snd r) tpl) \<subseteq> ?A \<union> B" .
    show ?thesis
    proof (cases "length (fst r) < length (x # xs)")
      case True
      from "2.IH"(2) [OF Some True "2.prems"] rest
      have "set (replaceAll_re re tpl (fst r)) \<subseteq> ?A \<union> B" by blast
      with ex Some True show ?thesis by simp
    next
      case False
      from "2.IH"(3) [OF Some False "2.prems"]
      have "set (replaceAll_re re tpl xs) \<subseteq> ?A \<union> B" by auto
      with ex Some False show ?thesis by simp
    qed
  qed
qed

lemma boldRule_id: "42 \<notin> set s \<Longrightarrow> boldRule s = s"
  unfolding boldRule_def by (rule replaceAll_id) (auto simp: js_def)

lemma headerRule_id:
  assumes "55356 \<notin> set s" "55357 \<notin> set s" "9200 \<notin> set s"
  shows "headerRule s = s"
  unfolding headerRule_def
  by (rule replaceAll_id)
    (use assms in \<open>auto simp: emoji_target_def emoji_money_def emoji_people_def
      emoji_computer_def emoji_bulb_def emoji_clock_def\<close>)

lemma tipRule_id: "8226 \<notin> set s \<Longrightarrow> tipRule s = s"
  unfolding tipRule_def by (rule replaceAll_id) (auto simp: bullet_def)

lemma tipsSectionRule_id: "42 \<notin> set s \<Longrightarrow> tipsSectionRule s = s"
  unfolding tipsSectionRule_def by (rule replaceAll_id) (auto simp: js_def)

lemma importantSectionRule_id: "42 \<notin> set s \<Longrightarrow> importantSectionRule s = s"
  unfolding importantSectionRule_def by (rule replaceAll_id) (auto simp: js_def)

lemma footerRule_id: "55357 \<notin> set s \<Longrightarrow> footerRule s = s"
  unfolding footerRule_def by (rule replaceFirst_id) (auto simp: emoji_pin_def)

lemma stepRule_id: "\<forall>c \<in> set s. \<not> in_class Digit c \<Longrightarrow> stepRule s = s"
  unfolding stepRule_def by (rule replaceAll_id) (auto simp: step_nomatch step_nomatch_Nil)

lemma breakRule_Nil: "breakRule [] = []"
  by (simp add: breakRule_def)

lemma breakRule_Cons: "breakRule (x # xs) = (if x = 10 then js ''<br>'' else [x]) @ breakRule xs"
  by (simp add: breakRule_def)

lemma breakRule_append: "breakRule (xs @ ys) = breakRule xs @ breakRule ys"
  by (induction xs) (simp_all add: breakRule_Nil breakRule_Cons)

lemma breakRule_id: "10 \<notin> set s \<Longrightarrow> breakRule s = s"
  by (induction s) (simp_all add: breakRule_Nil breakRule_Cons)

lemma breakRule_chars: "set (breakRule s) \<subseteq> set s \<union> set (js ''<br>'')"
  unfolding breakRule_def by (rule replaceAll_chars) simp

lemma stepRule_chars:
  "set (stepRule s) \<subseteq> set s \<union> set (js ''<div class=\"step-item\"><strong>.</strong> </div>'')"
  unfolding stepRule_def stepTemplate_def by (rule replaceAll_chars) (auto simp: js_def)

lemma formatMessage_plain:
  assumes "\<forall>c \<in> set t. c \<notin> {42, 8226, 9200, 55356, 55357}"
  shows "formatMessage (Some t) = stepRule (breakRule t)"
proof (cases "t = []")
  case True
  then show ?thesis
    by (simp add: formatMessage_def breakRule_Nil stepRule_def step_nomatch_Nil)
next
  case False
  let ?B = "breakRule t"
  let ?S = "stepRule ?B"
  from assms have t: "42 \<notin> set t" "8226 \<notin> set t" "9200 \<notin> set t" "55356 \<notin> set t"
    "55357 \<notin> set t" by auto
  have B: "set ?B \<subseteq> set t \<union> set (js ''<br>'')" by (rule breakRule_chars)
  have S: "set ?S \<subseteq> set ?B \<union> set (js ''<div class=\"step-item\"><strong>.</strong> </div>'')"
    by (rule stepRule_chars)
  have Bno: "42 \<notin> set ?B" "8226 \<notin> set ?B" "9200 \<notin> set ?B" "55356 \<notin> set ?B" "55357 \<notin> set ?B"
    using B t by (auto simp: js_def)
  have Sno: "42 \<notin> set ?S" "8226 \<notin> set ?S" "55357 \<notin> set ?S"
    using S Bno by (auto simp: js_def)
  have "formatMessage (Some t) =
      footerRule (importantSectionRule (tipsSectionRule (tipRule (stepRule
        (headerRule (breakRule (boldRule t)))))))"
    using False by (simp add: formatMessage_def)
  also have "\<dots> = footerRule (importantSectionRule (tipsSectionRule (tipRule ?S)))"
    using t(1) Bno by (simp add: boldRule_id headerRule_id)
  also have "\<dots> = ?S"
    using Sno by (simp add: tipRule_id tipsSectionRule_id importantSectionRule_id footerRule_id)
  finally show ?thesis .
qed

section \<open>Lemmas on where the step rule starts\<close>

lemma digitDot_iff:
  "digitDot s \<longleftrightarrow> (\<exists>u d v. s = u @ d # 46 # v \<and> in_class Digit d)"
proof (induction s rule: digitDot.induct)
  case (1 d e xs)
  show ?case
  proof
    assume "digitDot (d # e # xs)"
    then consider "in_class Digit d \<and> e = 46" | "digitDot (e # xs)" by auto
    then show "\<exists>u d' v. d # e # xs = u @ d' # 46 # v \<and> in_class Digit d'"
    proof cases
      case 1
      then have "d # e # xs = [] @ d # 46 # xs \<and> in_class Digit d" by simp
      then show ?thesis by blast
    next
      case 2
      with "1.IH" obtain u d' v where "e # xs = u @ d' # 46 # v" "in_class Digit d'" by blast
      then have "d # e # xs = (d # u) @ d' # 46 # v \<and> in_class Digit d'" by simp
      then show ?thesis by blast
    qed
  next
    assume "\<exists>u d' v. d # e # xs = u @ d' # 46 # v \<and> in_class Digit d'"
    then obtain u d' v where eq: "d # e # xs = u @ d' # 46 # v" and dig: "in_class Digit d'"
      by blast
    show "digitDot (d # e # xs)"
    proof (cases u)
      case Nil
      with eq dig show ?thesis by simp
    next
      case (Cons a u')
      with eq have "e # xs = u' @ d' # 46 # v" by simp
      with dig "1.IH" have "digitDot (e # xs)" by blast
      then show ?thesis by simp
    qed
  qed
next
  case (2 d)
  show ?case by (auto simp: Cons_eq_append_conv)
next
  case 3
  show ?case by simp
qed

lemma run_digits_dot_None:
  "\<not> dotAfterDigits s \<Longrightarrow>
   run (Match (Star Digit) # Close n st # Match (Seq (Chr (Unit 46)) r) # k) s c = None"
  by (induction s) auto

lemma step_nomatch_start:
  "\<not> dotAfterDigits xs \<Longrightarrow> run [Match stepRegex] (x # xs) c = None"
  by (simp add: stepRegex_def run_digits_dot_None)

lemma digitDot_tail: "\<not> digitDot (x # xs) \<Longrightarrow> \<not> digitDot xs"
  by (cases xs) auto

lemma no_dot_after_digits:
  assumes "\<not> digitDot (x # xs)" "in_class Digit x" "xs \<noteq> []" "\<not> in_class Digit (last xs)"
  shows "\<not> dotAfterDigits (xs @ t)"
  using assms
proof (induction xs arbitrary: x)
  case Nil
  then show ?case by simp
next
  case (Cons y ys)
  from Cons.prems(1,2) have y: "y \<noteq> 46" by auto
  show ?case
  proof (cases "in_class Digit y")
    case False
    with y show ?thesis by auto
  next
    case True
    with Cons.prems(4) have ne: "ys \<noteq> []" by auto
    with Cons.prems(4) have l: "\<not> in_class Digit (last ys)" by simp
    from Cons.prems(1) have "\<not> digitDot (y # ys)" by (rule digitDot_tail)
    from Cons.IH [OF this True ne l] y show ?thesis by simp
  qed
qed

lemma stepRule_skip:
  assumes "pre = [] \<or> \<not> in_class Digit (last pre)" "\<not> digitDot pre"
  shows "replaceAll_re stepRegex tpl (pre @ t) = pre @ replaceAll_re stepRegex tpl t"
  using assms
proof (induction pre)
  case Nil
  show ?case by simp
next
  case (Cons x xs)
  have none: "run [Match stepRegex] (x # xs @ t) Map.empty = None"
  proof (cases "in_class Digit x")
    case False
    then show ?thesis by (rule step_nomatch)
  next
    case True
    with Cons.prems(1) have ne: "xs \<noteq> []" by auto
    with Cons.prems(1) have "\<not> in_class Digit (last xs)" by simp
    from no_dot_after_digits [OF Cons.prems(2) True ne this]
    show ?thesis by (rule step_nomatch_start)
  qed
  have "xs = [] \<or> \<not> in_class Digit (last xs)" using Cons.prems(1) by (cases xs) auto
  moreover from Cons.prems(2) have "\<not> digitDot xs" by (rule digitDot_tail)
  ultimately have "replaceAll_re stepRegex tpl (xs @ t) = xs @ replaceAll_re stepRegex tpl t"
    by (rule Cons.IH)
  with none show ?case by simp
qed

lemma no_br_inside:
  assumes body: "\<not> includes_str body (js ''<br>'')"
    and rest: "rest = [] \<or> startsWith rest (js ''<br>'')"
    and i: "i < length body"
  shows "\<not> startsWith (drop i body @ rest) (js ''<br>'')"
proof
  assume s: "startsWith (drop i body @ rest) (js ''<br>'')"
  have no: "\<not> startsWith (drop i body) (js ''<br>'')"
  proof
    assume "startsWith (drop i body) (js ''<br>'')"
    then obtain post where "drop i body = js ''<br>'' @ post" by (auto simp: startsWith_iff)
    then have "body = take i body @ js ''<br>'' @ post"
      by (metis append_take_drop_id)
    with body show False unfolding includes_iff by blast
  qed
  from rest have r: "rest = [] \<or> (\<exists>u. rest = 60 # u)" by (auto dest: startsWith_br_hd)
  from i obtain a s1 where d: "drop i body = a # s1" by (cases "drop i body") auto
  show False
  proof (cases s1)
    case Nil
    with s no d r show False by (auto simp: js_def)
  next
    case (Cons b s2)
    note c1 = this
    show False
    proof (cases s2)
      case Nil
      with s no d r c1 show False by (auto simp: js_def)
    next
      case (Cons c s3)
      note c2 = this
      show False
      proof (cases s3)
        case Nil
        with s no d r c1 c2 show False by (auto simp: js_def)
      next
        case (Cons e s4)
        with s no d c1 c2 show False by (simp add: js_def)
      qed
    qed
  qed
qed

lemma stepRule_wraps:
  assumes pre: "pre = [] \<or> \<not> in_class Digit (last pre)" "\<not> digitDot pre"
    and ds: "ds \<noteq> []" "\<forall>d \<in> set ds. in_class Digit d"
    and ws: "\<forall>w \<in> set ws. isWhiteSpace w"
    and body: "\<forall>b \<in> set body. in_class Dot b" "body = [] \<or> \<not> isWhiteSpace (hd body)"
      "\<not> includes_str body (js ''<br>'')"
    and rest: "rest = [] \<or> startsWith rest (js ''<br>'')"
  shows "stepRule (pre @ ds @ [46] @ ws @ body @ rest) =
           pre @ js ''<div class=\"step-item\"><strong>'' @ ds @ js ''.</strong> '' @ body @
           js ''</div>'' @ stepRule rest"
proof -
  let ?t = "ds @ [46] @ ws @ body @ rest"
  have skip: "stepRule (pre @ ?t) = pre @ stepRule ?t"
    unfolding stepRule_def by (rule stepRule_skip [OF pre])
  have nobr: "\<forall>i < length body. \<not> startsWith (drop i body @ rest) (js ''<br>'')"
    using no_br_inside [OF body(3) rest] by blast
  have "stepRule ([] @ ?t) = [] @ js ''<div class=\"step-item\"><strong>'' @ ds @
      js ''.</strong> '' @ body @ js ''</div>'' @ stepRule rest"
    by (rule stepRule_first [OF _ ds ws body(1,2) nobr rest]) simp
  with skip show ?thesis by simp
qed

lemma breakRule_last:
  assumes "pre = [] \<or> \<not> in_class Digit (last pre)"
  shows "breakRule pre = [] \<or> \<not> in_class Digit (last (breakRule pre))"
proof (cases pre rule: rev_cases)
  case Nil
  then show ?thesis by (simp add: breakRule_Nil)
next
  case (snoc ys y)
  with assms have "\<not> in_class Digit y" by simp
  with snoc show ?thesis
    by (simp add: breakRule_append breakRule_Cons breakRule_Nil js_def)
qed

lemma breakRule_digitDot: "\<not> digitDot pre \<Longrightarrow> \<not> digitDot (breakRule pre)"
proof (induction pre rule: digitDot.induct)
  case (1 d e xs)
  from "1.prems" have a: "\<not> (in_class Digit d \<and> e = 46)" and "\<not> digitDot (e # xs)"
    by simp_all
  with "1.IH" have ih: "\<not> digitDot (breakRule (e # xs))" by simp
  obtain h r where hr: "breakRule (e # xs) = h # r" and h: "h = 46 \<longleftrightarrow> e = 46"
    by (cases "e = 10") (simp_all add: breakRule_Cons js_def)
  have "breakRule (d # e # xs) = (if d = 10 then js ''<br>'' else [d]) @ h # r"
    using hr by (simp add: breakRule_Cons [of d])
  with ih hr a h show ?case by (simp add: js_def)
next
  case (2 d)
  show ?case by (simp add: breakRule_Cons breakRule_Nil js_def)
next
  case 3
  show ?case by (simp add: breakRule_Nil)
qed

lemma breakRule_line_end:
  assumes "rest = [] \<or> hd rest = 10 \<or> startsWith rest (js ''<br>'')"
  shows "breakRule rest = [] \<or> startsWith (breakRule rest) (js ''<br>'')"
proof (cases rest)
  case Nil
  then show ?thesis by (simp add: breakRule_Nil)
next
  case (Cons r rs)
  show ?thesis
  proof (cases "r = 10")
    case True
    with Cons show ?thesis by (simp add: breakRule_Cons startsWith_iff)
  next
    case False
    with Cons assms have "startsWith rest (js ''<br>'')" by simp
    then obtain post where "rest = js ''<br>'' @ post" by (auto simp: startsWith_iff)
    then have "breakRule rest = js ''<br>'' @ breakRule post"
      by (simp add: js_def breakRule_Cons)
    then show ?thesis by (simp add: startsWith_iff)
  qed
qed

lemma formatMessage_step:
  assumes plain: "\<forall>c \<in> set (pre @ ds @ [46] @ ws @ body @ rest). c \<notin> {42, 8226, 9200, 55356, 55357}"
    and pre: "pre = [] \<or> \<not> in_class Digit (last pre)" "\<not> digitDot pre"
    and ds: "ds \<noteq> []" "\<forall>d \<in> set ds. in_class Digit d"
    and ws: "\<forall>w \<in> set ws. isWhiteSpace w \<and> w \<noteq> 10"
    and body: "\<forall>b \<in> set body. in_class Dot b" "body = [] \<or> \<not> isWhiteSpace (hd body)"
      "\<not> includes_str body (js ''<br>'')"
    and rest: "rest = [] \<or> hd rest = 10 \<or> startsWith rest (js ''<br>'')"
  shows "formatMessage (Some (pre @ ds @ [46] @ ws @ body @ rest)) =
           breakRule pre @ js ''<div class=\"step-item\"><strong>'' @ ds @ js ''.</strong> '' @
           body @ js ''</div>'' @ formatMessage (Some rest)"
proof -
  let ?text = "pre @ ds @ [46] @ ws @ body @ rest"
  from plain have prest: "\<forall>c \<in> set rest. c \<notin> {42, 8226, 9200, 55356, 55357}" by auto
  have frest: "formatMessage (Some rest) = stepRule (breakRule rest)"
    by (rule formatMessage_plain [OF prest])
  have "10 \<notin> set ds" using ds(2) by auto
  moreover have "10 \<notin> set ws" using ws by auto
  moreover have "10 \<notin> set body" using body(1) by auto
  ultimately have split: "breakRule ?text =
      breakRule pre @ ds @ [46] @ ws @ body @ breakRule rest"
    by (simp add: breakRule_append breakRule_id breakRule_Cons)
  have wsp: "\<forall>w \<in> set ws. isWhiteSpace w" using ws by simp
  have "formatMessage (Some ?text) = stepRule (breakRule ?text)"
    by (rule formatMessage_plain [OF plain])
  also have "\<dots> = breakRule pre @ js ''<div class=\"step-item\"><strong>'' @ ds @
      js ''.</strong> '' @ body @ js ''</div>'' @ stepRule (breakRule rest)"
    unfolding split
    by (rule stepRule_wraps [OF breakRule_last [OF pre(1)] breakRule_digitDot [OF pre(2)]
          ds wsp body breakRule_line_end [OF rest]])
  finally show ?thesis by (simp only: frest)
qed

section \<open>Pagination\<close>

text \<open>
  C1. Started on page 1 with an empty pagination bar, the page stays at 1 or above
  whatever is searched, loaded or clicked in the bar. On every page from 1 on, the number
  of pages is the ceiling of the number of filtered items over the page size 10 (so it is
  zero for an empty filtered collection),
  and the rows shown are the filtered items from position \<open>(page - 1) * 10\<close> up to, and not
  including, position \<open>page * 10\<close>, cut at the end of the collection and never continued
  from its beginning. With 25 filtered items there are 3 pages, page 1 shows the first ten
  items and page 3 the items 21 to 25.
\<close>

theorem pagination_count_and_slice:
  "(admin_initial s0 \<and> knowledgePagination s0 = [] \<and> (\<forall>e \<in> set es. from_page e) \<longrightarrow>
      1 \<le> currentKnowledgePage (admin_run unicodeLower es s0)) \<and>
   (1 \<le> currentKnowledgePage s \<longrightarrow>
      totalPages s = (int (length (filteredKnowledgeData s)) + 9) div 10 \<and>
      int (length (filteredKnowledgeData s)) \<le> 10 * totalPages s \<and>
      10 * totalPages s < int (length (filteredKnowledgeData s)) + 10 \<and>
      (filteredKnowledgeData s = [] \<longrightarrow> totalPages s = 0) \<and>
      pageData s =
        take 10 (drop (nat ((currentKnowledgePage s - 1) * 10)) (filteredKnowledgeData s)) \<and>
      length (pageData s) =
        min 10 (length (filteredKnowledgeData s) - nat ((currentKnowledgePage s - 1) * 10)) \<and>
      (\<forall>i < length (pageData s).
         pageData s ! i =
           filteredKnowledgeData s ! (nat ((currentKnowledgePage s - 1) * 10) + i)) \<and>
      knowledgeTableBody (renderKnowledgeTable s) =
        (if pageData s = [] then EmptyState else Rows (pageData s)) \<and>
      (length (filteredKnowledgeData s) = 25 \<longrightarrow>
         totalPages s = 3 \<and>
         (currentKnowledgePage s = 1 \<longrightarrow> pageData s = take 10 (filteredKnowledgeData s)) \<and>
         (currentKnowledgePage s = 3 \<longrightarrow> pageData s = drop 20 (filteredKnowledgeData s))))"
proof -
  have reach: "1 \<le> currentKnowledgePage (admin_run unicodeLower es s0)"
    if "admin_initial s0 \<and> knowledgePagination s0 = [] \<and> (\<forall>e \<in> set es. from_page e)"
    using that by (intro page_inv_run) (simp_all add: admin_initial_def)
  have main: "totalPages s = (int (length (filteredKnowledgeData s)) + 9) div 10 \<and>
      int (length (filteredKnowledgeData s)) \<le> 10 * totalPages s \<and>
      10 * totalPages s < int (length (filteredKnowledgeData s)) + 10 \<and>
      (filteredKnowledgeData s = [] \<longrightarrow> totalPages s = 0) \<and>
      pageData s =
        take 10 (drop (nat ((currentKnowledgePage s - 1) * 10)) (filteredKnowledgeData s)) \<and>
      length (pageData s) =
        min 10 (length (filteredKnowledgeData s) - nat ((currentKnowledgePage s - 1) * 10)) \<and>
      (\<forall>i < length (pageData s).
         pageData s ! i =
           filteredKnowledgeData s ! (nat ((currentKnowledgePage s - 1) * 10) + i)) \<and>
      knowledgeTableBody (renderKnowledgeTable s) =
        (if pageData s = [] then EmptyState else Rows (pageData s)) \<and>
      (length (filteredKnowledgeData s) = 25 \<longrightarrow>
         totalPages s = 3 \<and>
         (currentKnowledgePage s = 1 \<longrightarrow> pageData s = take 10 (filteredKnowledgeData s)) \<and>
         (currentKnowledgePage s = 3 \<longrightarrow> pageData s = drop 20 (filteredKnowledgeData s)))"
    if assms: "1 \<le> currentKnowledgePage s"
  proof -
    have count: "totalPages s = (int (length (filteredKnowledgeData s)) + 9) div 10"
      by (rule totalPages_div)
    have lower: "int (length (filteredKnowledgeData s)) \<le> 10 * totalPages s"
      unfolding count by linarith
    have upper: "10 * totalPages s < int (length (filteredKnowledgeData s)) + 10"
      unfolding count by linarith
    have empty: "filteredKnowledgeData s = [] \<longrightarrow> totalPages s = 0"
      unfolding count by simp
    have visible: "pageData s =
        take 10 (drop (nat ((currentKnowledgePage s - 1) * 10)) (filteredKnowledgeData s))"
      by (rule pageData_take_drop [OF assms])
    have len: "length (pageData s) =
        min 10 (length (filteredKnowledgeData s) - nat ((currentKnowledgePage s - 1) * 10))"
      by (rule length_pageData [OF assms])
    have nth: "\<forall>i < length (pageData s).
        pageData s ! i = filteredKnowledgeData s ! (nat ((currentKnowledgePage s - 1) * 10) + i)"
      using nth_pageData [OF assms] by blast
    have body: "knowledgeTableBody (renderKnowledgeTable s) =
        (if pageData s = [] then EmptyState else Rows (pageData s))"
      by (simp add: renderKnowledgeTable_def)
    have scenario: "length (filteredKnowledgeData s) = 25 \<longrightarrow>
        totalPages s = 3 \<and>
        (currentKnowledgePage s = 1 \<longrightarrow> pageData s = take 10 (filteredKnowledgeData s)) \<and>
        (currentKnowledgePage s = 3 \<longrightarrow> pageData s = drop 20 (filteredKnowledgeData s))"
      unfolding count visible by simp
    from count lower upper empty visible len nth body scenario show ?thesis by blast
  qed
  from reach main show ?thesis by blast
qed

theorem pagination_count_and_slice_witness:
  "admin_initial fresh_page \<and> knowledgePagination fresh_page = [] \<and>
   list_all from_page [LoadKnowledgeBaseDone (LoadedItems twenty_five), ClickPageButton 3] \<and>
   currentKnowledgePage
     (admin_run latin_only [LoadKnowledgeBaseDone (LoadedItems twenty_five), ClickPageButton 3]
        fresh_page) = 3 \<and>
   totalPages twenty_five_page3 = 3 \<and>
   map item_id (pageData twenty_five_page3) = [21, 22, 23, 24, 25] \<and>
   map item_id (pageData (twenty_five_page3\<lparr>currentKnowledgePage := 1\<rparr>)) =
     [1, 2, 3, 4, 5, 6, 7, 8, 9, 10]"
proof -
  let ?es = "[LoadKnowledgeBaseDone (LoadedItems twenty_five), ClickPageButton 3]"
  have init: "admin_initial fresh_page" "knowledgePagination fresh_page = []"
    by (simp_all add: admin_initial_def fresh_page_def)
  have evs: "\<forall>e \<in> set ?es. from_page e" by simp
  from pagination_count_and_slice [of fresh_page ?es latin_only twenty_five_page3] init evs
  have ge: "1 \<le> currentKnowledgePage (admin_run latin_only ?es fresh_page)" by blast
  have len: "length twenty_five = 25" by (simp add: twenty_five_def)
  have loaded: "knowledgePagination (loadKnowledgeBase (LoadedItems twenty_five) fresh_page) ! 3 =
      \<lparr>btn_label = showNat 3, btn_disabled = False, btn_active = False, btn_target = 3\<rparr>"
    by (simp add: loadKnowledgeBase_def updateKnowledgePagination_def renderKnowledgeTable_def
        totalPages_div fresh_page_def len upto_rec1)
  have size: "length (knowledgePagination (loadKnowledgeBase (LoadedItems twenty_five) fresh_page)) = 5"
    by (simp add: loadKnowledgeBase_def updateKnowledgePagination_def renderKnowledgeTable_def
        totalPages_div fresh_page_def len)
  have page: "currentKnowledgePage (admin_run latin_only ?es fresh_page) = 3"
    using loaded size
    by (simp add: clickPageButton_def changeKnowledgePage_def renderKnowledgeTable_def)
  have here: "1 \<le> currentKnowledgePage twenty_five_page3"
    "1 \<le> currentKnowledgePage (twenty_five_page3\<lparr>currentKnowledgePage := 1\<rparr>)"
    by (simp_all add: twenty_five_page3_def)
  from pagination_count_and_slice [of fresh_page ?es latin_only twenty_five_page3] here(1)
    pagination_count_and_slice [of fresh_page ?es latin_only "twenty_five_page3\<lparr>currentKnowledgePage := 1\<rparr>"]
    here(2)
  have "totalPages twenty_five_page3 = 3 \<and>
      map item_id (pageData twenty_five_page3) = [21, 22, 23, 24, 25] \<and>
      map item_id (pageData (twenty_five_page3\<lparr>currentKnowledgePage := 1\<rparr>)) =
        [1, 2, 3, 4, 5, 6, 7, 8, 9, 10]"
    by (simp add: twenty_five_page3_def twenty_five_def numbered_item_def)
  with init evs page show ?thesis by (simp add: list_all_iff)
qed

section \<open>Search and module filter\<close>

text \<open>
  C2, as stated, fails: the query \<open>PAY\<close> is a case-insensitive substring of a keyword of
  exactly one item (\<open>Payroll\<close>), yet the search returns two items, because the query also
  occurs in the question of the other one.
\<close>

theorem search_one_keyword_counterexample:
  "ci_substring latin_only (js ''PAY'') (js ''Payroll'') \<and>
   \<not> ci_substring latin_only (js ''PAY'') (js ''leave'') \<and>
   item_keywords payroll_item = Some [js ''Payroll''] \<and>
   item_keywords leave_item = Some [js ''leave''] \<and>
   knowledgeData (two_items (js ''PAY'')) = ItemArray [payroll_item, leave_item] \<and>
   filteredKnowledgeData (admin_step latin_only CallSearchKnowledge (two_items (js ''PAY''))) =
     [payroll_item, leave_item]"
proof -
  have "includes_str (toLowerCase latin_only (js ''Payroll'')) (toLowerCase latin_only (js ''PAY''))"
    by (simp add: js_def toLowerCase_def lowerUnit_def)
  then have a: "ci_substring latin_only (js ''PAY'') (js ''Payroll'')"
    using includes_lower_iff by blast
  have "\<not> includes_str (toLowerCase latin_only (js ''leave'')) (toLowerCase latin_only (js ''PAY''))"
    by (simp add: js_def toLowerCase_def lowerUnit_def)
  then have b: "\<not> ci_substring latin_only (js ''PAY'') (js ''leave'')"
    using includes_lower_iff by blast
  have c: "item_keywords payroll_item = Some [js ''Payroll'']"
    and d: "item_keywords leave_item = Some [js ''leave'']"
    by (simp_all add: payroll_item_def leave_item_def)
  have k: "knowledgeData (two_items (js ''PAY'')) = ItemArray [payroll_item, leave_item]"
    by (simp add: two_items_def)
  have e: "filteredKnowledgeData (admin_step latin_only CallSearchKnowledge (two_items (js ''PAY''))) =
      [payroll_item, leave_item]"
    unfolding filtered_searchKnowledge [OF k] by (simp add: example_defs)
  from a b c d k e show ?thesis by blast
qed

text \<open>
  C2, amended. Let the fetched collection be an array of items, and let the lower-case
  folding of the engine give no empty result for a non-empty string. After a search an
  item is in the filtered collection exactly when it is in the fetched collection, the
  search text is empty or a case-insensitive substring of its question, of its answer or
  of one of its keywords (the text folded to lower case occurs in the folded field), and
  the module filter is empty or equal to its module. Consequently, when the text is a
  case-insensitive substring of a keyword of an item that the module filter lets through,
  and no other item of the collection passes the text test (through its question, its
  answer or a keyword), the search returns exactly that item.
\<close>

theorem search_filter_membership:
  assumes engine: "\<forall>t. t \<noteq> [] \<longrightarrow> unicodeLower t \<noteq> []"
    and fetched: "knowledgeData s = ItemArray items"
  shows
  "(item \<in> set (filteredKnowledgeData (admin_step unicodeLower CallSearchKnowledge s)) \<longleftrightarrow>
      item \<in> set items \<and>
      text_passes unicodeLower (searchKnowledgeValue s) item \<and>
      (moduleFilterValue s = [] \<or> item_module item = moduleFilterValue s)) \<and>
   (item \<in> set items \<and>
    item_keywords item = Some kws \<and> kw \<in> set kws \<and>
    ci_substring unicodeLower (searchKnowledgeValue s) kw \<and>
    (moduleFilterValue s = [] \<or> item_module item = moduleFilterValue s) \<and>
    (\<forall>other \<in> set items.
       other \<noteq> item \<longrightarrow> \<not> text_passes unicodeLower (searchKnowledgeValue s) other) \<longrightarrow>
    set (filteredKnowledgeData (admin_step unicodeLower CallSearchKnowledge s)) = {item} \<and>
    filteredKnowledgeData (admin_step unicodeLower CallSearchKnowledge s) =
      filter (\<lambda>x. x = item) items)"
proof -
  let ?after = "admin_step unicodeLower CallSearchKnowledge s"
  let ?passes = "\<lambda>x. text_passes unicodeLower (searchKnowledgeValue s) x \<and>
      (moduleFilterValue s = [] \<or> item_module x = moduleFilterValue s)"
  have filtered: "filteredKnowledgeData ?after = filter ?passes items"
    unfolding filtered_searchKnowledge [OF fetched] matchesSearch_iff [OF engine]
      matchesModule_def ..
  have member: "item \<in> set (filteredKnowledgeData ?after) \<longleftrightarrow>
      item \<in> set items \<and> ?passes item"
    unfolding filtered by simp
  have only: "set (filteredKnowledgeData ?after) = {item} \<and>
      filteredKnowledgeData ?after = filter (\<lambda>x. x = item) items"
    if here: "item \<in> set items"
      and kws: "item_keywords item = Some kws" "kw \<in> set kws"
      and sub: "ci_substring unicodeLower (searchKnowledgeValue s) kw"
      and modl: "moduleFilterValue s = [] \<or> item_module item = moduleFilterValue s"
      and others: "\<forall>other \<in> set items.
        other \<noteq> item \<longrightarrow> \<not> text_passes unicodeLower (searchKnowledgeValue s) other"
  proof -
    from kws sub have "text_passes unicodeLower (searchKnowledgeValue s) item"
      unfolding text_passes_def by blast
    with modl have yes: "?passes item" by simp
    have "\<forall>x \<in> set items. ?passes x \<longleftrightarrow> x = item"
      using yes others by blast
    then have eq: "filter ?passes items = filter (\<lambda>x. x = item) items"
      by (intro filter_cong) auto
    have "set (filter (\<lambda>x. x = item) items) = {item}"
      using here by auto
    with eq show ?thesis unfolding filtered by simp
  qed
  from member only show ?thesis by blast
qed

theorem search_filter_membership_witness:
  "knowledgeData (two_items (js ''ROLL'')) = ItemArray [payroll_item, leave_item] \<and>
   ci_substring latin_only (js ''ROLL'') (js ''Payroll'') \<and>
   filteredKnowledgeData (admin_step latin_only CallSearchKnowledge (two_items (js ''ROLL''))) =
     [payroll_item]"
proof -
  let ?s = "two_items (js ''ROLL'')"
  let ?items = "[payroll_item, leave_item]"
  have engine: "\<forall>t. t \<noteq> [] \<longrightarrow> latin_only t \<noteq> []"
    by (simp add: latin_only_def)
  have fetched: "knowledgeData ?s = ItemArray ?items"
    by (simp add: two_items_def)
  have here: "payroll_item \<in> set ?items" by simp
  have kws: "item_keywords payroll_item = Some [js ''Payroll'']" "js ''Payroll'' \<in> set [js ''Payroll'']"
    by (simp_all add: payroll_item_def)
  have "includes_str (toLowerCase latin_only (js ''Payroll'')) (toLowerCase latin_only (js ''ROLL''))"
    by (simp add: js_def toLowerCase_def lowerUnit_def)
  then have sub: "ci_substring latin_only (searchKnowledgeValue ?s) (js ''Payroll'')"
    by (simp add: includes_lower_iff two_items_def)
  have modl: "moduleFilterValue ?s = [] \<or> item_module payroll_item = moduleFilterValue ?s"
    by (simp add: two_items_def)
  have "\<not> matchesSearch latin_only (toLowerCase latin_only (js ''ROLL'')) leave_item"
    by (simp add: example_defs)
  then have "\<not> text_passes latin_only (js ''ROLL'') leave_item"
    using matchesSearch_iff [OF engine] by blast
  then have others: "\<forall>other \<in> set ?items.
      other \<noteq> payroll_item \<longrightarrow> \<not> text_passes latin_only (searchKnowledgeValue ?s) other"
    by (simp add: two_items_def)
  from search_filter_membership [OF engine fetched, of payroll_item "[js ''Payroll'']" "js ''Payroll''"]
    here kws sub modl others
  have "filteredKnowledgeData (admin_step latin_only CallSearchKnowledge ?s) =
      filter (\<lambda>x. x = payroll_item) ?items"
    by blast
  also have "\<dots> = [payroll_item]"
    by (simp add: payroll_item_def leave_item_def)
  finally have res: "filteredKnowledgeData (admin_step latin_only CallSearchKnowledge ?s) =
      [payroll_item]" .
  from sub have "ci_substring latin_only (js ''ROLL'') (js ''Payroll'')"
    by (simp add: two_items_def)
  with fetched res show ?thesis by blast
qed

section \<open>Page changes and filter changes\<close>




section \<open>API client\<close>

text \<open>
  C4, as stated, fails: \<open>safeFetch\<close> throws the errors it catches unchanged. A network
  failure reaches the caller as the \<open>TypeError\<close> that \<open>fetch\<close> rejected with, while a
  status 500 reaches it as a plain \<open>Error\<close>: the errors are of different classes and
  the first one is the transport's own exception.
\<close>

theorem safeFetch_raw_errors_counterexample:
  "snd (safeFetch stats_url (Inl network_down :: js_error + stats_data response)) = Inl network_down \<and>
   error_class_of network_down = TypeErrorClass \<and>
   snd (safeFetch stats_url (Inr stats_500)) =
     Inl (JsError ErrorClass (js ''HTTP error! status: 500'')) \<and>
   TypeErrorClass \<noteq> ErrorClass"
  by (simp add: safeFetch_def Let_def network_down_def stats_500_def ok_def showNat_500 js_def)

text \<open>
  C4, amended. \<open>safeFetch\<close> checks the status before anything is parsed: outside 200
  to 299 it throws an \<open>Error\<close> with the message \<open>HTTP error! status: N\<close> and does not
  read the body. With a good status and a content type that is missing or does not contain
  \<open>application/json\<close> it throws an \<open>Error\<close> with the message \<open>Response is not JSON\<close>,
  again without reading the body; the body is read only after both checks have passed. A
  well-formed body is returned. A network failure and a malformed body make \<open>safeFetch\<close>
  throw the very error that \<open>fetch\<close> or \<open>json()\<close> rejected with. Every error thrown
  has been written to the console just before and carries a message.
\<close>

theorem safeFetch_checks_and_errors:
  "(\<not> (200 \<le> status r \<and> status r \<le> 299) \<longrightarrow>
      snd (safeFetch url (Inr r)) =
        Inl (JsError ErrorClass (js ''HTTP error! status: '' @ showNat (status r))) \<and>
      ReadJson \<notin> set (fst (safeFetch url (Inr r)))) \<and>
   (200 \<le> status r \<and> status r \<le> 299 \<and>
    (content_type r = None \<or>
     (\<exists>ct. content_type r = Some ct \<and> \<not> includes_str ct (js ''application/json''))) \<longrightarrow>
      snd (safeFetch url (Inr r)) = Inl (JsError ErrorClass (js ''Response is not JSON'')) \<and>
      ReadJson \<notin> set (fst (safeFetch url (Inr r)))) \<and>
   (ReadJson \<in> set (fst (safeFetch url fetched)) \<longrightarrow>
      (\<exists>r' ct. fetched = Inr r' \<and> 200 \<le> status r' \<and> status r' \<le> 299 \<and>
         content_type r' = Some ct \<and> includes_str ct (js ''application/json''))) \<and>
   (200 \<le> status r \<and> status r \<le> 299 \<and> content_type r = Some ct \<and>
    includes_str ct (js ''application/json'') \<longrightarrow>
      (\<forall>v. json_body r = Inr v \<longrightarrow> safeFetch url (Inr r) = ([ReadJson], Inr v)) \<and>
      (\<forall>e. json_body r = Inl e \<longrightarrow> snd (safeFetch url (Inr r)) = Inl e)) \<and>
   snd (safeFetch url (Inl err)) = Inl err \<and>
   (\<forall>e. snd (safeFetch url fetched) = Inl e \<longrightarrow>
      fst (safeFetch url fetched) \<noteq> [] \<and>
      last (fst (safeFetch url fetched)) = ConsoleError (js ''Fetch error for '' @ url @ js '':'') e)"
proof -
  have inc: "includes_str ct (js ''application/json'') \<Longrightarrow> ct \<noteq> []" for ct
    by (auto simp: js_def)
  have status: "\<not> (200 \<le> status r \<and> status r \<le> 299) \<longrightarrow>
      snd (safeFetch url (Inr r)) =
        Inl (JsError ErrorClass (js ''HTTP error! status: '' @ showNat (status r))) \<and>
      ReadJson \<notin> set (fst (safeFetch url (Inr r)))"
    by (simp add: safeFetch_def Let_def ok_def)
  have ctype: "200 \<le> status r \<and> status r \<le> 299 \<and>
    (content_type r = None \<or>
     (\<exists>ct. content_type r = Some ct \<and> \<not> includes_str ct (js ''application/json''))) \<longrightarrow>
      snd (safeFetch url (Inr r)) = Inl (JsError ErrorClass (js ''Response is not JSON'')) \<and>
      ReadJson \<notin> set (fst (safeFetch url (Inr r)))"
    by (auto simp: safeFetch_def Let_def ok_def)
  have parsed: "ReadJson \<in> set (fst (safeFetch url fetched)) \<longrightarrow>
      (\<exists>r' ct. fetched = Inr r' \<and> 200 \<le> status r' \<and> status r' \<le> 299 \<and>
         content_type r' = Some ct \<and> includes_str ct (js ''application/json''))"
    by (auto simp: safeFetch_def Let_def ok_def split: sum.splits option.splits if_splits)
  have good: "200 \<le> status r \<and> status r \<le> 299 \<and> content_type r = Some ct \<and>
    includes_str ct (js ''application/json'') \<longrightarrow>
      (\<forall>v. json_body r = Inr v \<longrightarrow> safeFetch url (Inr r) = ([ReadJson], Inr v)) \<and>
      (\<forall>e. json_body r = Inl e \<longrightarrow> snd (safeFetch url (Inr r)) = Inl e)"
    using inc [of ct] by (auto simp: safeFetch_def Let_def ok_def)
  have net: "snd (safeFetch url (Inl err)) = Inl err"
    by (simp add: safeFetch_def Let_def)
  have logged: "\<forall>e. snd (safeFetch url fetched) = Inl e \<longrightarrow>
      fst (safeFetch url fetched) \<noteq> [] \<and>
      last (fst (safeFetch url fetched)) = ConsoleError (js ''Fetch error for '' @ url @ js '':'') e"
    by (auto simp: safeFetch_def Let_def split: sum.splits option.splits if_splits)
  from status ctype parsed good net logged show ?thesis by blast
qed

theorem safeFetch_checks_and_errors_witness:
  "\<not> (200 \<le> status stats_500 \<and> status stats_500 \<le> 299) \<and>
   safeFetch stats_url (Inr stats_500) =
     ([ConsoleError (js ''Fetch error for '' @ stats_url @ js '':'')
         (JsError ErrorClass (js ''HTTP error! status: 500''))],
      Inl (JsError ErrorClass (js ''HTTP error! status: 500''))) \<and>
   200 \<le> status stats_ok \<and> status stats_ok \<le> 299 \<and>
   includes_str (js ''application/json; charset=utf-8'') (js ''application/json'') \<and>
   safeFetch stats_url (Inr stats_ok) =
     ([ReadJson], Inr \<lparr>knowledge_count = Some 3, training_count = Some 2, conversation_count = None\<rparr>)"
proof -
  have bad: "\<not> (200 \<le> status stats_500 \<and> status stats_500 \<le> 299)"
    by (simp add: stats_500_def)
  with safeFetch_checks_and_errors [of stats_500 stats_url]
  have e: "snd (safeFetch stats_url (Inr stats_500)) =
      Inl (JsError ErrorClass (js ''HTTP error! status: '' @ showNat (status stats_500)))"
    by blast
  have e': "snd (safeFetch stats_url (Inr stats_500)) =
      Inl (JsError ErrorClass (js ''HTTP error! status: 500''))"
    using e by (simp add: stats_500_def showNat_500) (simp add: js_def)
  from safeFetch_checks_and_errors [of stats_500 stats_url "Inr stats_500"] e'
  have log: "fst (safeFetch stats_url (Inr stats_500)) \<noteq> [] \<and>
      last (fst (safeFetch stats_url (Inr stats_500))) =
        ConsoleError (js ''Fetch error for '' @ stats_url @ js '':'')
          (JsError ErrorClass (js ''HTTP error! status: 500''))"
    by blast
  have one: "length (fst (safeFetch stats_url (Inr stats_500))) = 1"
    by (simp add: safeFetch_def Let_def stats_500_def ok_def)
  have first: "safeFetch stats_url (Inr stats_500) =
     ([ConsoleError (js ''Fetch error for '' @ stats_url @ js '':'')
         (JsError ErrorClass (js ''HTTP error! status: 500''))],
      Inl (JsError ErrorClass (js ''HTTP error! status: 500'')))"
  proof -
    from one obtain x where x: "fst (safeFetch stats_url (Inr stats_500)) = [x]"
      by (cases "fst (safeFetch stats_url (Inr stats_500))") auto
    with log e' show ?thesis by (simp add: prod_eq_iff)
  qed
  have good: "200 \<le> status stats_ok \<and> status stats_ok \<le> 299"
    by (simp add: stats_ok_def)
  have ct: "content_type stats_ok = Some (js ''application/json; charset=utf-8'')"
    by (simp add: stats_ok_def)
  have inc: "includes_str (js ''application/json; charset=utf-8'') (js ''application/json'')"
    by (simp add: js_def)
  have body: "json_body stats_ok =
      Inr \<lparr>knowledge_count = Some 3, training_count = Some 2, conversation_count = None\<rparr>"
    by (simp add: stats_ok_def)
  from safeFetch_checks_and_errors [of stats_ok stats_url _ "js ''application/json; charset=utf-8''"]
    good ct inc body
  have second: "safeFetch stats_url (Inr stats_ok) =
     ([ReadJson], Inr \<lparr>knowledge_count = Some 3, training_count = Some 2, conversation_count = None\<rparr>)"
    by blast
  from bad first good inc second show ?thesis by blast
qed

section \<open>Formatter: numbered steps\<close>

text \<open>
  C5, as stated, fails: the step rule has no anchor at the start of a line. In the
  sentence \<open>Pay by May 5. Thanks\<close> the integer 5 followed by a dot stands in the middle
  of the line, and \<open>formatMessage\<close> wraps it and the rest of the sentence as a step
  item.
\<close>

theorem step_rule_not_anchored_counterexample:
  "formatMessage (Some prose_with_date) =
     js ''Pay by May <div class=\"step-item\"><strong>5.</strong> Thanks</div>''"
proof -
  have "\<forall>c \<in> set prose_with_date. c \<notin> {42, 8226, 9200, 55356, 55357}"
    by (simp add: prose_with_date_def js_def)
  then have "formatMessage (Some prose_with_date) = stepRule (breakRule prose_with_date)"
    by (rule formatMessage_plain)
  also have "breakRule prose_with_date = prose_with_date"
    by (rule breakRule_id) (simp add: prose_with_date_def js_def)
  also have "stepRule prose_with_date =
      js ''Pay by May <div class=\"step-item\"><strong>5.</strong> Thanks</div>''"
    by (simp add: prose_with_date_def stepRule_def stepRegex_def stepTemplate_def js_def
        isWhiteSpace_def)
  finally show ?thesis .
qed

text \<open>
  C5, amended. Let a text be cut as \<open>pre\<close>, an integer \<open>ds\<close>, a dot, white space \<open>ws\<close>
  without a newline, a remainder \<open>body\<close>, and \<open>rest\<close>, where

    \<^item> the integer is the first that is directly followed by a dot, wherever it stands: in
      \<open>pre\<close> no digit is directly followed by a dot, and \<open>pre\<close> does not end in a digit;
    \<^item> the remainder does not begin with white space, contains no line terminator (LF, CR,
      U+2028, U+2029) and does not contain \<open><br>\<close>; it may contain further integers
      followed by a dot, and the character \<open><\<close>.

  Then:

    \<^item> the step rule, applied to such a string in which \<open>rest\<close> is empty or begins with
      \<open><br>\<close>, leaves \<open>pre\<close> as it is, replaces the integer, the dot, the white space and
      the remainder by one step-item block that holds the integer and the remainder
      separately, and goes on with \<open>rest\<close>;
    \<^item> \<open>formatMessage\<close>, applied to such a text that has none of the other markup (no
      asterisk, no bullet, none of the emoji) and in which \<open>rest\<close> is empty or begins with
      a newline or with \<open><br>\<close>, gives \<open>pre\<close> with every newline replaced by \<open><br>\<close>, then
      the same block, then \<open>rest\<close> formatted in the same way.
\<close>

theorem step_item_wrapped_anywhere:
  assumes pre: "pre = [] \<or> \<not> in_class Digit (last pre)" "\<not> digitDot pre"
    and ds: "ds \<noteq> []" "\<forall>d \<in> set ds. in_class Digit d"
    and ws: "\<forall>w \<in> set ws. isWhiteSpace w \<and> w \<noteq> 10"
    and body: "\<forall>b \<in> set body. in_class Dot b" "body = [] \<or> \<not> isWhiteSpace (hd body)"
      "\<not> includes_str body (js ''<br>'')"
  shows "(rest = [] \<or> startsWith rest (js ''<br>'') \<longrightarrow>
            stepRule (pre @ ds @ [46] @ ws @ body @ rest) =
              pre @ js ''<div class=\"step-item\"><strong>'' @ ds @ js ''.</strong> '' @ body @
              js ''</div>'' @ stepRule rest) \<and>
         ((\<forall>c \<in> set (pre @ ds @ [46] @ ws @ body @ rest). c \<notin> {42, 8226, 9200, 55356, 55357}) \<and>
          (rest = [] \<or> hd rest = 10 \<or> startsWith rest (js ''<br>'')) \<longrightarrow>
            formatMessage (Some (pre @ ds @ [46] @ ws @ body @ rest)) =
              concat (map (\<lambda>c. if c = 10 then js ''<br>'' else [c]) pre) @
              js ''<div class=\"step-item\"><strong>'' @ ds @ js ''.</strong> '' @ body @
              js ''</div>'' @ formatMessage (Some rest))"
proof (intro conjI impI)
  assume rest: "rest = [] \<or> startsWith rest (js ''<br>'')"
  have wsp: "\<forall>w \<in> set ws. isWhiteSpace w" using ws by simp
  show "stepRule (pre @ ds @ [46] @ ws @ body @ rest) =
      pre @ js ''<div class=\"step-item\"><strong>'' @ ds @ js ''.</strong> '' @ body @
      js ''</div>'' @ stepRule rest"
    by (rule stepRule_wraps [OF pre ds wsp body rest])
next
  assume a: "(\<forall>c \<in> set (pre @ ds @ [46] @ ws @ body @ rest). c \<notin> {42, 8226, 9200, 55356, 55357}) \<and>
      (rest = [] \<or> hd rest = 10 \<or> startsWith rest (js ''<br>''))"
  then have plain: "\<forall>c \<in> set (pre @ ds @ [46] @ ws @ body @ rest). c \<notin> {42, 8226, 9200, 55356, 55357}"
    and rest: "rest = [] \<or> hd rest = 10 \<or> startsWith rest (js ''<br>'')" by blast+
  have "breakRule pre = concat (map (\<lambda>c. if c = 10 then js ''<br>'' else [c]) pre)"
    by (induction pre) (simp_all add: breakRule_Nil breakRule_Cons)
  with formatMessage_step [OF plain pre ds ws body rest]
  show "formatMessage (Some (pre @ ds @ [46] @ ws @ body @ rest)) =
      concat (map (\<lambda>c. if c = 10 then js ''<br>'' else [c]) pre) @
      js ''<div class=\"step-item\"><strong>'' @ ds @ js ''.</strong> '' @ body @
      js ''</div>'' @ formatMessage (Some rest)"
    by simp
qed

theorem step_item_wrapped_anywhere_witness:
  "room_steps = js ''Room 5 has '' @ js ''3'' @ [46] @ js '' '' @ js ''items < 4. x'' @
     ([10] @ js ''2. b'') \<and>
   \<not> digitDot (js ''Room 5 has '') \<and>
   \<not> includes_str (js ''items < 4. x'') (js ''<br>'') \<and>
   list_all (\<lambda>c. c \<notin> {42, 8226, 9200, 55356, 55357}) room_steps \<and>
   stepRule (js ''Room 5 has '' @ js ''3'' @ [46] @ js '' '' @ js ''items < 4. x'' @ []) =
     js ''Room 5 has <div class=\"step-item\"><strong>3.</strong> items < 4. x</div>'' \<and>
   formatMessage (Some room_steps) =
     js ''Room 5 has <div class=\"step-item\"><strong>3.</strong> items < 4. x</div><br>'' @
     js ''<div class=\"step-item\"><strong>2.</strong> b</div>''"
proof -
  let ?pre = "js ''Room 5 has ''"
  let ?body = "js ''items < 4. x''"
  let ?second = "[10] @ js ''2. b''"
  have parts: "room_steps = ?pre @ js ''3'' @ [46] @ js '' '' @ ?body @ ?second"
    by (simp add: room_steps_def js_def)
  have pre: "?pre = [] \<or> \<not> in_class Digit (last ?pre)" "\<not> digitDot ?pre"
    by (simp_all add: js_def)
  have ds: "js ''3'' \<noteq> []" "\<forall>d \<in> set (js ''3''). in_class Digit d"
    by (simp_all add: js_def)
  have ws: "\<forall>w \<in> set (js '' ''). isWhiteSpace w \<and> w \<noteq> 10"
    by (simp add: js_def isWhiteSpace_def)
  have body: "\<forall>b \<in> set ?body. in_class Dot b" "?body = [] \<or> \<not> isWhiteSpace (hd ?body)"
      "\<not> includes_str ?body (js ''<br>'')"
    by (simp_all add: js_def isWhiteSpace_def)
  have plain: "\<forall>c \<in> set room_steps. c \<notin> {42, 8226, 9200, 55356, 55357}"
    by (simp add: room_steps_def js_def)
  have stage: "stepRule (?pre @ js ''3'' @ [46] @ js '' '' @ ?body @ []) =
      js ''Room 5 has <div class=\"step-item\"><strong>3.</strong> items < 4. x</div>''"
    using step_item_wrapped_anywhere [OF pre ds ws body, of "[]"]
    by (simp add: stepRule_def step_nomatch_Nil) (simp add: js_def)
  have first: "formatMessage (Some room_steps) =
      ?pre @ js ''<div class=\"step-item\"><strong>'' @ js ''3'' @
      js ''.</strong> '' @ ?body @ js ''</div>'' @ formatMessage (Some ?second)"
    using step_item_wrapped_anywhere [OF pre ds ws body, of ?second] plain
    unfolding parts by (simp add: js_def)
  have pre2: "[10::nat] = [] \<or> \<not> in_class Digit (last [10])" "\<not> digitDot [10]"
    by simp_all
  have ds2: "js ''2'' \<noteq> []" "\<forall>d \<in> set (js ''2''). in_class Digit d"
    by (simp_all add: js_def)
  have body2: "\<forall>b \<in> set (js ''b''). in_class Dot b" "js ''b'' = [] \<or> \<not> isWhiteSpace (hd (js ''b''))"
      "\<not> includes_str (js ''b'') (js ''<br>'')"
    by (simp_all add: js_def isWhiteSpace_def)
  have second: "formatMessage (Some ?second) =
      js ''<br>'' @ js ''<div class=\"step-item\"><strong>'' @ js ''2'' @
      js ''.</strong> '' @ js ''b'' @ js ''</div>'' @ formatMessage (Some [])"
    using step_item_wrapped_anywhere [OF pre2 ds2 ws body2, of "[]"]
    by (simp add: js_def)
  have empty: "formatMessage (Some []) = []"
    by (simp add: formatMessage_def)
  have "formatMessage (Some room_steps) =
     js ''Room 5 has <div class=\"step-item\"><strong>3.</strong> items < 4. x</div><br>'' @
     js ''<div class=\"step-item\"><strong>2.</strong> b</div>''"
    unfolding first second empty by (simp add: js_def)
  with parts pre(2) body(3) plain stage show ?thesis by (simp add: list_all_iff)
qed

text \<open>
  The condition on the line terminators cannot be dropped. In a text with CRLF line ends
  the newline rule leaves the CR in front of the \<open><br>\<close>; the dot of the regular
  expression does not pass a CR, so the first line is not wrapped, and the second, which
  ends the text, is.
\<close>

lemma step_rule_crlf_example:
  "formatMessage (Some crlf_steps) =
     js ''1. a'' @ [13] @ js ''<br><div class=\"step-item\"><strong>2.</strong> b</div>''"
proof -
  have "\<forall>c \<in> set crlf_steps. c \<notin> {42, 8226, 9200, 55356, 55357}"
    by (simp add: crlf_steps_def js_def)
  then have "formatMessage (Some crlf_steps) = stepRule (breakRule crlf_steps)"
    by (rule formatMessage_plain)
  also have "breakRule crlf_steps = js ''1. a'' @ [13] @ js ''<br>2. b''"
    by (simp add: crlf_steps_def breakRule_Cons breakRule_Nil js_def)
  also have "stepRule (js ''1. a'' @ [13] @ js ''<br>2. b'') =
      js ''1. a'' @ [13] @ js ''<br><div class=\"step-item\"><strong>2.</strong> b</div>''"
    by (simp add: stepRule_def stepRegex_def stepTemplate_def js_def isWhiteSpace_def)
  finally show ?thesis .
qed

section \<open>Formatter: missing input\<close>

text \<open>
  C6. \<open>formatMessage\<close> returns the empty string for a missing argument (\<open>undefined\<close>
  or \<open>null\<close>) and for the empty string.
\<close>

theorem formatMessage_missing_input:
  "formatMessage None = [] \<and> formatMessage (Some []) = []"
  by (simp add: formatMessage_def)

section \<open>Keyword editor\<close>

text \<open>
  C7. Pressing Enter in the keyword input adds the trimmed text: the trimmed text is the
  input without its leading and trailing white space. When nothing is left after
  trimming (as for two spaces) nothing changes. Otherwise one element for the trimmed
  keyword is appended after the existing children, whether or not the keyword is already
  there, and the input is cleared. The remove button of the child at a position takes out
  exactly that child; adding \<open>x\<close> to an empty container and removing position 0 leaves
  it empty, and removing the element just added gives back the container as it was.
\<close>

theorem keyword_add_and_remove:
  "(\<exists>l r. v = l @ trim v @ r \<and> (\<forall>c \<in> set l. isWhiteSpace c) \<and> (\<forall>c \<in> set r. isWhiteSpace c)) \<and>
   (trim v \<noteq> [] \<longrightarrow> \<not> isWhiteSpace (hd (trim v)) \<and> \<not> isWhiteSpace (last (trim v))) \<and>
   (trim (keywordInputValue s) = [] \<longrightarrow> keywordInput_keypress (js ''Enter'') s = s) \<and>
   keywordInput_keypress (js ''Enter'') (s\<lparr>keywordInputValue := js ''  ''\<rparr>) =
     s\<lparr>keywordInputValue := js ''  ''\<rparr> \<and>
   (trim (keywordInputValue s) \<noteq> [] \<longrightarrow>
      keywordsContainer (keywordInput_keypress (js ''Enter'') s) =
        keywordsContainer s @ [keywordElement (trim (keywordInputValue s))] \<and>
      keywordInputValue (keywordInput_keypress (js ''Enter'') s) = [] \<and>
      keywordsContainer (removeKeyword_click (length (keywordsContainer s))
        (keywordInput_keypress (js ''Enter'') s)) = keywordsContainer s) \<and>
   (keywordElement a = keywordElement b \<longrightarrow> a = b) \<and>
   (index < length (keywordsContainer s) \<longrightarrow>
      keywordsContainer (removeKeyword_click index s) =
        take index (keywordsContainer s) @ drop (Suc index) (keywordsContainer s) \<and>
      length (keywordsContainer (removeKeyword_click index s)) = length (keywordsContainer s) - 1) \<and>
   keywordsContainer (removeKeyword_click 0 (keywordInput_keypress (js ''Enter'')
      \<lparr>keywordInputValue = js ''x'', keywordsContainer = []\<rparr>)) = []"
proof -
  have blank: "trim (js ''  '') = []"
    by (simp add: trim_def js_def isWhiteSpace_def)
  have noop: "trim (keywordInputValue t) = [] \<Longrightarrow> keywordInput_keypress (js ''Enter'') t = t" for t
    by (simp add: keywordInput_keypress_def)
  have two: "keywordInput_keypress (js ''Enter'') (s\<lparr>keywordInputValue := js ''  ''\<rparr>) =
      s\<lparr>keywordInputValue := js ''  ''\<rparr>"
    by (rule noop) (simp add: blank)
  have add: "keywordsContainer (keywordInput_keypress (js ''Enter'') s) =
        keywordsContainer s @ [keywordElement (trim (keywordInputValue s))] \<and>
      keywordInputValue (keywordInput_keypress (js ''Enter'') s) = [] \<and>
      keywordsContainer (removeKeyword_click (length (keywordsContainer s))
        (keywordInput_keypress (js ''Enter'') s)) = keywordsContainer s"
    if "trim (keywordInputValue s) \<noteq> []"
    using that
    by (simp add: keywordInput_keypress_def addKeywordToContainer_def removeKeyword_click_def
        removeAt_append_last)
  have inj: "keywordElement a = keywordElement b \<longrightarrow> a = b"
    by (simp add: keywordElement_def)
  have rem: "keywordsContainer (removeKeyword_click index s) =
        take index (keywordsContainer s) @ drop (Suc index) (keywordsContainer s) \<and>
      length (keywordsContainer (removeKeyword_click index s)) = length (keywordsContainer s) - 1"
    if "index < length (keywordsContainer s)"
    using that by (auto simp: removeKeyword_click_def removeAt_def)
  have scenario: "keywordsContainer (removeKeyword_click 0 (keywordInput_keypress (js ''Enter'')
      \<lparr>keywordInputValue = js ''x'', keywordsContainer = []\<rparr>)) = []"
    by (simp add: keywordInput_keypress_def addKeywordToContainer_def removeKeyword_click_def
        removeAt_def Let_def trim_def js_def isWhiteSpace_def)
  from trim_decomp [of v] trim_ends [of v] noop [of s] two add inj rem scenario
  show ?thesis by blast
qed

theorem keyword_add_and_remove_witness:
  "trim (keywordInputValue one_tag) \<noteq> [] \<and> 0 < length (keywordsContainer one_tag) \<and>
   keywordsContainer (keywordInput_keypress (js ''Enter'') one_tag) =
     [keywordElement (js ''tax''), keywordElement (js ''payroll'')] \<and>
   keywordsContainer (removeKeyword_click 0 (keywordInput_keypress (js ''Enter'') one_tag)) =
     [keywordElement (js ''payroll'')]"
proof -
  have t: "trim (keywordInputValue one_tag) = js ''payroll''"
    by (simp add: one_tag_def trim_def js_def isWhiteSpace_def)
  then have ne: "trim (keywordInputValue one_tag) \<noteq> []"
    by (simp add: js_def)
  have len: "0 < length (keywordsContainer one_tag)"
    by (simp add: one_tag_def)
  from keyword_add_and_remove [of _ one_tag] ne
  have add: "keywordsContainer (keywordInput_keypress (js ''Enter'') one_tag) =
      keywordsContainer one_tag @ [keywordElement (trim (keywordInputValue one_tag))]"
    by blast
  then have two: "keywordsContainer (keywordInput_keypress (js ''Enter'') one_tag) =
      [keywordElement (js ''tax''), keywordElement (js ''payroll'')]"
    by (simp add: t) (simp add: one_tag_def)
  then have "0 < length (keywordsContainer (keywordInput_keypress (js ''Enter'') one_tag))"
    by simp
  with keyword_add_and_remove [of _ "keywordInput_keypress (js ''Enter'') one_tag" _ _ 0]
  have "keywordsContainer (removeKeyword_click 0 (keywordInput_keypress (js ''Enter'') one_tag)) =
      take 0 (keywordsContainer (keywordInput_keypress (js ''Enter'') one_tag)) @
      drop (Suc 0) (keywordsContainer (keywordInput_keypress (js ''Enter'') one_tag))"
    by blast
  with two have "keywordsContainer (removeKeyword_click 0 (keywordInput_keypress (js ''Enter'') one_tag)) =
      [keywordElement (js ''payroll'')]"
    by simp
  with ne len two show ?thesis by blast
qed

section \<open>Chat: one request at a time\<close>

text \<open>
  C8. While the loading flag is set, \<open>sendMessage\<close> changes nothing. In every state
  the chat reaches from its start the flag is set exactly while a call of \<open>sendMessage\<close>
  is suspended on its request, and at most one call is. As long as no event ends that
  call, whatever the user types or sends, the message sequence and the requests sent stay
  the same and the flag stays set. When the request fails or the body has been read, the
  flag is cleared; after that a send with non-blank input appends the user message and
  issues one request again.
\<close>

theorem send_rejected_while_loading:
  "(loading s \<longrightarrow> sendMessage now s = s) \<and>
   (loading (chat_run es chat_initial) \<longleftrightarrow> inflight (chat_run es chat_initial) \<noteq> []) \<and>
   length (inflight (chat_run es chat_initial)) \<le> 1 \<and>
   (loading s \<and> (\<forall>e \<in> set later. \<not> ends_request e) \<longrightarrow>
      messages (chat_run later s) = messages s \<and> requests (chat_run later s) = requests s \<and>
      loading (chat_run later s)) \<and>
   (inflight s = [AwaitFetch] \<longrightarrow>
      \<not> loading (fetchSettled 0 (Inl err) now s) \<and> inflight (fetchSettled 0 (Inl err) now s) = []) \<and>
   (inflight s = [AwaitJson] \<longrightarrow>
      \<not> loading (jsonSettled 0 outcome now s) \<and> inflight (jsonSettled 0 outcome now s) = []) \<and>
   (\<not> loading s \<and> trim (userInput s) \<noteq> [] \<longrightarrow>
      messages (sendMessage now s) =
        messages s @ [\<lparr>msg_id = now, msg_type = js ''user'', sender = js ''You'',
          msg_content = Some (trim (userInput s)), source = None, msg_module = None,
          detectedModule = None, confidence = None\<rparr>] \<and>
      requests (sendMessage now s) =
        requests s @ [\<lparr>payload_question = userInput s,
          payload_module = (if autoDetectModule s then js ''auto'' else selectedModule s)\<rparr>] \<and>
      loading (sendMessage now s))"
proof -
  have rejected: "loading s \<longrightarrow> sendMessage now s = s"
    by (simp add: sendMessage_def)
  have fetch_fail: "\<not> loading (fetchSettled 0 (Inl err) now s) \<and>
      inflight (fetchSettled 0 (Inl err) now s) = []" if "inflight s = [AwaitFetch]"
    using that by (simp add: fetchSettled_def sendFailed_def removeAt_def)
  have json_done: "\<not> loading (jsonSettled 0 outcome now s) \<and>
      inflight (jsonSettled 0 outcome now s) = []" if "inflight s = [AwaitJson]"
    using that
    by (simp add: jsonSettled_def sendFailed_def removeAt_def Let_def
        split: sum.splits option.splits)
  have again: "messages (sendMessage now s) =
        messages s @ [\<lparr>msg_id = now, msg_type = js ''user'', sender = js ''You'',
          msg_content = Some (trim (userInput s)), source = None, msg_module = None,
          detectedModule = None, confidence = None\<rparr>] \<and>
      requests (sendMessage now s) =
        requests s @ [\<lparr>payload_question = userInput s,
          payload_module = (if autoDetectModule s then js ''auto'' else selectedModule s)\<rparr>] \<and>
      loading (sendMessage now s)" if "\<not> loading s \<and> trim (userInput s) \<noteq> []"
    using that by (simp add: sendMessage_def Let_def)
  from rejected chat_inv_reachable [of es] pending_run [of s later] fetch_fail json_done again
  show ?thesis by blast
qed

theorem send_rejected_while_loading_witness:
  "loading hello_sent \<and>
   list_all (\<lambda>e. \<not> ends_request e)
     [TypeInput (js ''again''), Send 1001, FetchSettled 0 (Inr ()) 1002] \<and>
   sendMessage 1001 hello_sent = hello_sent \<and>
   length (messages (chat_run [TypeInput (js ''again''), Send 1001, FetchSettled 0 (Inr ()) 1002]
      hello_sent)) = 1 \<and>
   length (requests (chat_run [TypeInput (js ''again''), Send 1001, FetchSettled 0 (Inr ()) 1002]
      hello_sent)) = 1 \<and>
   length (requests (chat_run [TypeInput (js ''again''), Send 1001, FetchSettled 0 (Inr ()) 1002,
      JsonSettled 0 (Inr (Some sample_reply)) 1003, Send 1004] hello_sent)) = 2"
proof -
  let ?later = "[TypeInput (js ''again''), Send 1001, FetchSettled 0 (Inr ()) 1002]"
  have hello: "hello_sent =
      \<lparr>userInput = [], loading = True,
       messages = [\<lparr>msg_id = 1000, msg_type = js ''user'', sender = js ''You'',
          msg_content = Some (js ''hello''), source = None, msg_module = None,
          detectedModule = None, confidence = None\<rparr>],
       selectedModule = js ''general'', autoDetectModule = True,
       requests = [\<lparr>payload_question = js ''hello'', payload_module = js ''auto''\<rparr>],
       inflight = [AwaitFetch], conversationReloads = 0\<rparr>"
    by (simp add: hello_sent_def chat_initial_def sendMessage_def trim_def js_def isWhiteSpace_def
        Let_def)
  have l: "loading hello_sent" by (simp add: hello)
  have q: "\<forall>e \<in> set ?later. \<not> ends_request e" by simp
  from send_rejected_while_loading [of hello_sent 1001 _ ?later] l q
  have keep: "sendMessage 1001 hello_sent = hello_sent"
    "messages (chat_run ?later hello_sent) = messages hello_sent"
    "requests (chat_run ?later hello_sent) = requests hello_sent"
    by blast+
  have two: "length (requests (chat_run [TypeInput (js ''again''), Send 1001,
      FetchSettled 0 (Inr ()) 1002, JsonSettled 0 (Inr (Some sample_reply)) 1003, Send 1004]
      hello_sent)) = 2"
    by (simp add: hello sendMessage_def fetchSettled_def jsonSettled_def removeAt_def
        trim_def js_def isWhiteSpace_def Let_def)
  from l q keep two show ?thesis by (simp add: hello list_all_iff)
qed

section \<open>Chat: blank input\<close>

text \<open>
  C9. When the user input is empty or holds only white space, \<open>sendMessage\<close> changes
  nothing: no message is appended, no request is sent, and input and loading flag stay as
  they are.
\<close>

theorem blank_send_is_noop:
  assumes "\<forall>c \<in> set (userInput s). isWhiteSpace c"
  shows "sendMessage now s = s \<and>
         messages (sendMessage now s) = messages s \<and>
         requests (sendMessage now s) = requests s \<and>
         inflight (sendMessage now s) = inflight s \<and>
         userInput (sendMessage now s) = userInput s \<and>
         loading (sendMessage now s) = loading s"
proof -
  from assms have "trim (userInput s) = []" by (simp add: trim_Nil_iff)
  then have "sendMessage now s = s" by (simp add: sendMessage_def)
  then show ?thesis by simp
qed

theorem blank_send_is_noop_witness:
  "list_all isWhiteSpace (userInput blank_input) \<and>
   sendMessage 1000 blank_input = blank_input \<and> messages (sendMessage 1000 blank_input) = [] \<and>
   requests (sendMessage 1000 blank_input) = []"
proof -
  have h: "\<forall>c \<in> set (userInput blank_input). isWhiteSpace c"
    by (simp add: blank_input_def js_def isWhiteSpace_def)
  from blank_send_is_noop [OF h, of 1000] h show ?thesis
    by (simp add: blank_input_def chat_initial_def list_all_iff)
qed

section \<open>Training threshold\<close>




end
